theory Spec2Isabelle
  imports Complex_Main "HOL-Library.Char_ord" "HOL-Library.List_Lexorder"
    "HOL-Library.Multiset" "HOL-Library.Sublist" "HOL-Library.AList"
begin

section \<open>Exceptions\<close>

text \<open>
  The Python exceptions that the engine's handlers tell apart. \<open>FileNotFoundError\<close> and
  \<open>PermissionError\<close> are subclasses of \<open>OSError\<close>; the others are not (\<open>TypeError\<close> is what
  the comparison of two values of different types raises). All of them are
  subclasses of \<open>Exception\<close>, so a handler \<open>except Exception\<close> catches every value of
  this type.
\<close>

datatype exn =
  FileNotFoundError | PermissionError | OSError | ValueError | RuntimeError | KeyError
  | TypeError

fun is_OSError :: "exn \<Rightarrow> bool" where
  "is_OSError FileNotFoundError = True"
| "is_OSError PermissionError = True"
| "is_OSError OSError = True"
| "is_OSError ValueError = False"
| "is_OSError RuntimeError = False"
| "is_OSError KeyError = False"
| "is_OSError TypeError = False"

section \<open>The file system\<close>

text \<open>
  A path is the list of its components, and \<open>os.path.join\<close> appends components. A node is
  a regular file with its size, a symbolic link, or a directory with its entries in the
  order the operating system lists them. A link carries what it points to (\<open>None\<close> for a
  dangling link); links are never walked into by \<open>os.walk\<close>, so only the kind and the size
  of the target matter, except where the link is the path argument itself.
\<close>

type_synonym path = "string list"

datatype node = File nat | Link "node option" | Dir "(string \<times> node) list"

text \<open>\<open>follow\<close> resolves links, as \<open>os.stat\<close> does; a dangling link resolves to nothing.\<close>

fun follow :: "node \<Rightarrow> node option" where
  "follow (File n) = Some (File n)"
| "follow (Dir es) = Some (Dir es)"
| "follow (Link None) = None"
| "follow (Link (Some t)) = follow t"

text \<open>
  \<open>lookup n p\<close> is the node at path \<open>p\<close> below \<open>n\<close>, links followed in every component
  but the last (\<open>os.lstat\<close>).
\<close>

fun lookup :: "node \<Rightarrow> path \<Rightarrow> node option" where
  "lookup n [] = Some n"
| "lookup n (c # cs) =
     (case follow n of
        Some (Dir es) \<Rightarrow> (case map_of es c of Some ch \<Rightarrow> lookup ch cs | None \<Rightarrow> None)
      | _ \<Rightarrow> None)"

section \<open>The registry and the state of the machine\<close>

text \<open>
  A key of the configuration store holds named values. \<open>winreg.QueryValueEx\<close> returns the
  data of a value as the Python value of its registry type: a string for \<open>REG_SZ\<close> and
  \<open>REG_EXPAND_SZ\<close>, an integer for \<open>REG_DWORD\<close> and \<open>REG_QWORD\<close>, a list of strings
  for \<open>REG_MULTI_SZ\<close>, and for \<open>REG_BINARY\<close> and the other types the bytes of the data,
  or \<open>None\<close> when there are none. A value is true in a condition when it is not
  empty, not zero and not \<open>None\<close>.
\<close>

datatype py_value =
  PyStr string | PyInt int | PyBytes "nat list" | PyList "string list" | PyNone

fun truthy :: "py_value \<Rightarrow> bool" where
  "truthy (PyStr s) = (s \<noteq> [])"
| "truthy (PyInt i) = (i \<noteq> 0)"
| "truthy (PyBytes b) = (b \<noteq> [])"
| "truthy (PyList l) = (l \<noteq> [])"
| "truthy PyNone = False"

text \<open>
  The values of an \<open>Uninstall\<close> subkey are held with their types. Those of the \<open>RunMRU\<close>
  key are held as strings: every exception in \<open>clear_run_history\<close> meets the handler
  \<open>except Exception\<close>.
\<close>

type_synonym typed_values = "(string \<times> py_value) list"

type_synonym reg_values = "(string \<times> string) list"

datatype hive = HKEY_CURRENT_USER | HKEY_LOCAL_MACHINE

text \<open>
  The state of the machine. The four \<open>_fails\<close> fields are the access failures of the
  moment: \<open>stat_fails p\<close> makes the path \<open>p\<close> unreachable (access to it is denied, or it
  vanished after it was listed), so that it does not exist for \<open>os.path\<close>;
  \<open>getsize_fails p\<close> makes \<open>os.path.getsize p\<close> raise on a path that was there a moment
  before; \<open>scandir_fails p\<close> makes listing the directory \<open>p\<close> fail; \<open>delete_fails p\<close>
  makes removing \<open>p\<close> fail. \<open>glob_of\<close> is \<open>glob.glob\<close>, a library
  function of the file tree, which may raise. The registry part: the \<open>Uninstall\<close> key of
  each hive (the exception \<open>OpenKey\<close> raises, or its subkeys, each of which is the
  exception opening it raises or its values), and the \<open>RunMRU\<close> key of the current user
  with the failures of opening it, of deleting a value and of writing a value.
\<close>

record world =
  fs_root :: node
  stat_fails :: "path \<Rightarrow> bool"
  getsize_fails :: "path \<Rightarrow> bool"
  scandir_fails :: "path \<Rightarrow> bool"
  delete_fails :: "path \<Rightarrow> bool"
  glob_of :: "node \<Rightarrow> string \<Rightarrow> exn + string list"
  uninstall_key :: "hive \<Rightarrow> exn + (string \<times> (exn + typed_values)) list"
  run_mru :: "exn + reg_values"
  delete_value_fails :: "string \<Rightarrow> exn option"
  set_value_fails :: "exn option"

subsection \<open>The functions of \<open>os.path\<close> and \<open>os\<close>\<close>

definition lstat :: "world \<Rightarrow> path \<Rightarrow> node option" where
  "lstat w p = (if stat_fails w p then None else lookup (fs_root w) p)"

definition stat :: "world \<Rightarrow> path \<Rightarrow> node option" where
  "stat w p = (case lstat w p of Some n \<Rightarrow> follow n | None \<Rightarrow> None)"

definition path_exists :: "world \<Rightarrow> path \<Rightarrow> bool" where
  "path_exists w p = (stat w p \<noteq> None)"

definition path_isfile :: "world \<Rightarrow> path \<Rightarrow> bool" where
  "path_isfile w p = (case stat w p of Some (File n) \<Rightarrow> True | _ \<Rightarrow> False)"

definition path_isdir :: "world \<Rightarrow> path \<Rightarrow> bool" where
  "path_isdir w p = (case stat w p of Some (Dir es) \<Rightarrow> True | _ \<Rightarrow> False)"

definition path_islink :: "world \<Rightarrow> path \<Rightarrow> bool" where
  "path_islink w p = (case lstat w p of Some (Link t) \<Rightarrow> True | _ \<Rightarrow> False)"

text \<open>
  \<open>os.path.getsize\<close> is \<open>os.stat(p).st_size\<close>: it follows links and raises an \<open>OSError\<close>
  when the path cannot be read. The size of a directory itself is taken as 0.
\<close>

definition path_getsize :: "world \<Rightarrow> path \<Rightarrow> exn + int" where
  "path_getsize w p =
     (if getsize_fails w p then Inl PermissionError
      else case stat w p of
             None \<Rightarrow> Inl FileNotFoundError
           | Some (File n) \<Rightarrow> Inr (int n)
           | Some _ \<Rightarrow> Inr 0)"

definition os_listdir :: "world \<Rightarrow> path \<Rightarrow> exn + string list" where
  "os_listdir w p =
     (if scandir_fails w p then Inl PermissionError
      else case stat w p of
             None \<Rightarrow> Inl FileNotFoundError
           | Some (Dir es) \<Rightarrow> Inr (map fst es)
           | Some _ \<Rightarrow> Inl OSError)"

text \<open>
  \<open>os.walk(top, topdown=False)\<close> with the default \<open>onerror=None\<close> and
  \<open>followlinks=False\<close>: a directory that cannot be listed is skipped silently; an entry
  is a directory name when it is a directory after following links, a file name
  otherwise; only directories that are not links are walked into; the triple of a
  directory comes after those of its subdirectories.
\<close>

definition is_dir_entry :: "node \<Rightarrow> bool" where
  "is_dir_entry c = (case follow c of Some (Dir es) \<Rightarrow> True | _ \<Rightarrow> False)"

definition dirnames :: "(string \<times> node) list \<Rightarrow> string list" where
  "dirnames es = map fst (filter (\<lambda>e. is_dir_entry (snd e)) es)"

definition filenames :: "(string \<times> node) list \<Rightarrow> string list" where
  "filenames es = map fst (filter (\<lambda>e. \<not> is_dir_entry (snd e)) es)"

type_synonym walk_triple = "path \<times> string list \<times> string list"

fun walk_node :: "(path \<Rightarrow> bool) \<Rightarrow> path \<Rightarrow> node \<Rightarrow> walk_triple list"
  and walk_children :: "(path \<Rightarrow> bool) \<Rightarrow> path \<Rightarrow> (string \<times> node) list \<Rightarrow> walk_triple list"
where
  "walk_node sf topdir (Dir es) =
     (if sf topdir then []
      else walk_children sf topdir es @ [(topdir, dirnames es, filenames es)])"
| "walk_node sf topdir (File n) = []"
| "walk_node sf topdir (Link t) = []"
| "walk_children sf topdir [] = []"
| "walk_children sf topdir (e # es) =
     walk_node sf (topdir @ [fst e]) (snd e) @ walk_children sf topdir es"

definition os_walk :: "world \<Rightarrow> path \<Rightarrow> walk_triple list" where
  "os_walk w topdir =
     (case stat w topdir of Some d \<Rightarrow> walk_node (scandir_fails w) topdir d | None \<Rightarrow> [])"

section \<open>SystemScanner\<close>

subsection \<open>\<open>scan_directory_safely\<close>\<close>

text \<open>
  The accumulators are the pair \<open>(total_size, file_count)\<close>. A loop returns \<open>Inr\<close> of
  the accumulators, or \<open>Inl\<close> of an exception that left it together with the
  accumulators at that moment (the outer handler returns them).

  \<open>scan_file\<close> is the body of the inner loop, with its handler
  \<open>except (OSError, FileNotFoundError): continue\<close>.
\<close>

type_synonym acc = "int \<times> int"

definition scan_file :: "world \<Rightarrow> path \<Rightarrow> acc \<Rightarrow> string \<Rightarrow> (exn \<times> acc) + acc" where
  "scan_file w root_dir a file =
     (let file_path = root_dir @ [file] in
      if path_exists w file_path \<and> \<not> path_islink w file_path then
        (case path_getsize w file_path of
           Inr sz \<Rightarrow> Inr (fst a + sz, snd a + 1)
         | Inl e \<Rightarrow> if is_OSError e then Inr a else Inl (e, a))
      else Inr a)"

fun scan_files :: "world \<Rightarrow> path \<Rightarrow> acc \<Rightarrow> string list \<Rightarrow> (exn \<times> acc) + acc" where
  "scan_files w root_dir a [] = Inr a"
| "scan_files w root_dir a (f # fs) =
     (case scan_file w root_dir a f of
        Inl x \<Rightarrow> Inl x
      | Inr a' \<Rightarrow> scan_files w root_dir a' fs)"

fun scan_walk :: "world \<Rightarrow> acc \<Rightarrow> walk_triple list \<Rightarrow> (exn \<times> acc) + acc" where
  "scan_walk w a [] = Inr a"
| "scan_walk w a (t # ts) =
     (case scan_files w (fst t) a (snd (snd t)) of
        Inl x \<Rightarrow> Inl x
      | Inr a' \<Rightarrow> scan_walk w a' ts)"

text \<open>
  The body of the outer \<open>try\<close>: the two early returns, then the walk. The outer handler
  \<open>except (OSError, PermissionError): pass\<close> is followed by
  \<open>return total_size, file_count\<close>.
\<close>

definition scan_try :: "world \<Rightarrow> path \<Rightarrow> (exn \<times> acc) + acc" where
  "scan_try w directory_path =
     (if \<not> path_exists w directory_path then Inr (0, 0)
      else if path_isfile w directory_path then
        (case path_getsize w directory_path of
           Inr sz \<Rightarrow> Inr (sz, 1)
         | Inl e \<Rightarrow> Inl (e, (0, 0)))
      else scan_walk w (0, 0) (os_walk w directory_path))"

definition scan_directory_safely :: "world \<Rightarrow> path \<Rightarrow> exn + acc" where
  "scan_directory_safely w directory_path =
     (case scan_try w directory_path of
        Inr a \<Rightarrow> Inr a
      | Inl (e, a) \<Rightarrow> if is_OSError e then Inr a else Inl e)"

subsection \<open>\<open>scan_firefox_cache\<close>\<close>

text \<open>
  The loop over \<open>os.listdir(firefox_profiles_dir)\<close>, inside
  \<open>try ... except (OSError, PermissionError): pass\<close>. \<open>scan_directory_safely\<close> is
  called inside the \<open>try\<close>, so an exception of it would pass through this handler too.
\<close>

fun scan_profiles :: "world \<Rightarrow> path \<Rightarrow> acc \<Rightarrow> string list \<Rightarrow> (exn \<times> acc) + acc" where
  "scan_profiles w firefox_profiles_dir a [] = Inr a"
| "scan_profiles w firefox_profiles_dir a (profile # ps) =
     (let cache_dir = firefox_profiles_dir @ [profile, ''cache2''] in
      if path_isdir w cache_dir then
        (case scan_directory_safely w cache_dir of
           Inl e \<Rightarrow> Inl (e, a)
         | Inr sc \<Rightarrow> scan_profiles w firefox_profiles_dir (fst a + fst sc, snd a + snd sc) ps)
      else scan_profiles w firefox_profiles_dir a ps)"

definition scan_firefox_try :: "world \<Rightarrow> path \<Rightarrow> (exn \<times> acc) + acc" where
  "scan_firefox_try w firefox_profiles_dir =
     (if path_exists w firefox_profiles_dir then
        (case os_listdir w firefox_profiles_dir of
           Inl e \<Rightarrow> Inl (e, (0, 0))
         | Inr profiles \<Rightarrow> scan_profiles w firefox_profiles_dir (0, 0) profiles)
      else Inr (0, 0))"

definition scan_firefox_cache :: "world \<Rightarrow> path \<Rightarrow> exn + acc" where
  "scan_firefox_cache w firefox_profiles_dir =
     (case scan_firefox_try w firefox_profiles_dir of
        Inr a \<Rightarrow> Inr a
      | Inl (e, a) \<Rightarrow> if is_OSError e then Inr a else Inl e)"

subsection \<open>\<open>scan_location_size\<close>\<close>

text \<open>
  Path patterns are strings; Windows reads a path string as its components, separated
  by backslashes or slashes, where a component \<open>.\<close> stands for nothing and a
  component \<open>..\<close> takes back the component before it (none at the root). The empty
  string names no file: it is read as one empty component, which is not the root.
\<close>

fun split_path :: "string \<Rightarrow> string \<Rightarrow> path" where
  "split_path cur [] = (if cur = [] then [] else [cur])"
| "split_path cur (c # cs) =
     (if c = CHR 0x5C \<or> c = CHR ''/''
      then (if cur = [] then [] else [cur]) @ split_path [] cs
      else split_path (cur @ [c]) cs)"

fun normalise :: "path \<Rightarrow> path \<Rightarrow> path" where
  "normalise seen [] = rev seen"
| "normalise seen (c # cs) =
     (if c = ''.'' then normalise seen cs
      else if c = ''..'' then normalise (tl seen) cs
      else normalise (c # seen) cs)"

definition path_of :: "string \<Rightarrow> path" where
  "path_of s = (if s = [] then [[]] else normalise [] (split_path [] s))"

definition glob_glob :: "world \<Rightarrow> string \<Rightarrow> exn + string list" where
  "glob_glob w path_pattern = glob_of w (fs_root w) path_pattern"

text \<open>
  The test whether the pattern holds \<open>Firefox\<close>, a path separator (backslash or
  slash) and \<open>Profiles\<close> in a row; the backslash is the character of code 0x5C.
\<close>

definition is_firefox_profiles :: "string \<Rightarrow> bool" where
  "is_firefox_profiles path_pattern =
     (sublist (''Firefox'' @ [CHR 0x5C] @ ''Profiles'') path_pattern
      \<or> sublist ''Firefox/Profiles'' path_pattern)"

text \<open>The loop over \<open>glob.glob(path_pattern)\<close>.\<close>

fun scan_matches :: "world \<Rightarrow> acc \<Rightarrow> string list \<Rightarrow> exn + acc" where
  "scan_matches w a [] = Inr a"
| "scan_matches w a (m # ms) =
     (case scan_directory_safely w (path_of m) of
        Inl e \<Rightarrow> Inl e
      | Inr sc \<Rightarrow> scan_matches w (fst a + fst sc, snd a + snd sc) ms)"

text \<open>The loop over \<open>location_paths\<close>; nothing here catches an exception.\<close>

fun scan_patterns :: "world \<Rightarrow> acc \<Rightarrow> string list \<Rightarrow> exn + acc" where
  "scan_patterns w a [] = Inr a"
| "scan_patterns w a (path_pattern # rest) =
     (if path_pattern = ''REGISTRY_CLEANUP'' then
        scan_patterns w (fst a + 1024, snd a + 1) rest
      else if is_firefox_profiles path_pattern then
        (case scan_firefox_cache w (path_of path_pattern) of
           Inl e \<Rightarrow> Inl e
         | Inr sc \<Rightarrow> scan_patterns w (fst a + fst sc, snd a + snd sc) rest)
      else
        (case glob_glob w path_pattern of
           Inl e \<Rightarrow> Inl e
         | Inr ms \<Rightarrow>
             (case scan_matches w a ms of
                Inl e \<Rightarrow> Inl e
              | Inr a' \<Rightarrow> scan_patterns w a' rest)))"

definition scan_location_size :: "world \<Rightarrow> string list \<Rightarrow> exn + acc" where
  "scan_location_size w location_paths = scan_patterns w (0, 0) location_paths"

subsection \<open>\<open>scan_all_locations\<close>\<close>

text \<open>
  \<open>self.temp_locations\<close> is a dictionary from category names to path patterns, read in
  insertion order; it is an argument here. The progress callback is any function of the
  caller's, which returns or raises. The result dictionary maps a category to its
  \<open>size\<close>, \<open>count\<close> and \<open>size_mb\<close>. There is no \<open>try\<close> in this function.
\<close>

type_synonym catalog = "(string \<times> string list) list"

type_synonym progress_callback = "real \<Rightarrow> string \<Rightarrow> exn option"

record scan_entry =
  entry_size :: int
  entry_count :: int
  entry_size_mb :: real

definition notify :: "progress_callback option \<Rightarrow> real \<Rightarrow> string \<Rightarrow> exn option" where
  "notify progress_callback x msg =
     (case progress_callback of None \<Rightarrow> None | Some f \<Rightarrow> f x msg)"

fun scan_categories ::
  "progress_callback option \<Rightarrow> world \<Rightarrow> nat \<Rightarrow> nat \<Rightarrow> (string \<rightharpoonup> scan_entry) \<Rightarrow> catalog
    \<Rightarrow> exn + (string \<rightharpoonup> scan_entry)"
where
  "scan_categories cb w total_locations i results [] = Inr results"
| "scan_categories cb w total_locations i results (cat # rest) =
     (case notify cb (real i / real total_locations) (''Scanning: '' @ fst cat) of
        Some e \<Rightarrow> Inl e
      | None \<Rightarrow>
          (case scan_location_size w (snd cat) of
             Inl e \<Rightarrow> Inl e
           | Inr sc \<Rightarrow>
               scan_categories cb w total_locations (Suc i)
                 (results(fst cat \<mapsto>
                    \<lparr>entry_size = fst sc, entry_count = snd sc,
                     entry_size_mb = real_of_int (fst sc) / (1024 * 1024)\<rparr>))
                 rest))"

definition scan_all_locations ::
  "progress_callback option \<Rightarrow> world \<Rightarrow> catalog \<Rightarrow> exn + (string \<rightharpoonup> scan_entry)"
where
  "scan_all_locations progress_callback w temp_locations =
     (case scan_categories progress_callback w (length temp_locations) 0 Map.empty
             temp_locations of
        Inl e \<Rightarrow> Inl e
      | Inr results \<Rightarrow>
          (case notify progress_callback 1 ''Scan complete!'' of
             Some e \<Rightarrow> Inl e
           | None \<Rightarrow> Inr results))"

subsection \<open>\<open>get_installed_apps\<close>\<close>

text \<open>The functions of \<open>winreg\<close> on an opened \<open>Uninstall\<close> key and on a key's values.\<close>

type_synonym subkeys = "(string \<times> (exn + typed_values)) list"

definition OpenKey_uninstall :: "world \<Rightarrow> hive \<Rightarrow> exn + subkeys" where
  "OpenKey_uninstall w hkey = uninstall_key w hkey"

definition QueryInfoKey :: "subkeys \<Rightarrow> nat" where
  "QueryInfoKey key = length key"

definition EnumKey :: "subkeys \<Rightarrow> nat \<Rightarrow> exn + string" where
  "EnumKey key i = (if i < length key then Inr (fst (key ! i)) else Inl OSError)"

definition OpenKey_sub :: "subkeys \<Rightarrow> string \<Rightarrow> exn + typed_values" where
  "OpenKey_sub key subkey_name =
     (case map_of key subkey_name of None \<Rightarrow> Inl FileNotFoundError | Some r \<Rightarrow> r)"

definition QueryValueEx :: "(string \<times> 'v) list \<Rightarrow> string \<Rightarrow> exn + 'v" where
  "QueryValueEx vals value_name =
     (case map_of vals value_name of None \<Rightarrow> Inl FileNotFoundError | Some v \<Rightarrow> Inr v)"

text \<open>An entry of the result: the dictionary \<open>{"name": ..., "command": ...}\<close>.\<close>

record installed_app =
  app_name :: py_value
  app_command :: py_value

text \<open>
  The body of the inner \<open>try\<close>, for the subkey of index \<open>i\<close>: the entry it appends, if
  any. The condition \<open>if display_name and uninstall_string\<close> tests the two values as
  they come, whatever their types.
\<close>

definition read_app :: "subkeys \<Rightarrow> nat \<Rightarrow> exn + installed_app option" where
  "read_app key i =
     (case EnumKey key i of
        Inl e \<Rightarrow> Inl e
      | Inr subkey_name \<Rightarrow>
          (case OpenKey_sub key subkey_name of
             Inl e \<Rightarrow> Inl e
           | Inr subkey \<Rightarrow>
               (case QueryValueEx subkey ''DisplayName'' of
                  Inl e \<Rightarrow> Inl e
                | Inr display_name \<Rightarrow>
                    (case QueryValueEx subkey ''UninstallString'' of
                       Inl e \<Rightarrow> Inl e
                     | Inr uninstall_string \<Rightarrow>
                         Inr (if truthy display_name \<and> truthy uninstall_string
                              then Some \<lparr>app_name = display_name,
                                         app_command = uninstall_string\<rparr>
                              else None)))))"

text \<open>
  The loop \<open>for i in range(...)\<close> with its handler
  \<open>except (FileNotFoundError, OSError): continue\<close>; an exception that leaves it comes with
  the list as it stands.
\<close>

fun enum_apps ::
  "subkeys \<Rightarrow> installed_app list \<Rightarrow> nat list
    \<Rightarrow> (exn \<times> installed_app list) + installed_app list"
where
  "enum_apps key installed_apps [] = Inr installed_apps"
| "enum_apps key installed_apps (i # rest) =
     (case read_app key i of
        Inr None \<Rightarrow> enum_apps key installed_apps rest
      | Inr (Some a) \<Rightarrow> enum_apps key (installed_apps @ [a]) rest
      | Inl e \<Rightarrow>
          if e = FileNotFoundError \<or> is_OSError e then enum_apps key installed_apps rest
          else Inl (e, installed_apps))"

text \<open>The loop over the two hives with its handler \<open>except FileNotFoundError: continue\<close>.\<close>

fun enum_hives :: "world \<Rightarrow> installed_app list \<Rightarrow> hive list \<Rightarrow> exn + installed_app list"
where
  "enum_hives w installed_apps [] = Inr installed_apps"
| "enum_hives w installed_apps (hkey # rest) =
     (case OpenKey_uninstall w hkey of
        Inl e \<Rightarrow> if e = FileNotFoundError then enum_hives w installed_apps rest else Inl e
      | Inr key \<Rightarrow>
          (case enum_apps key installed_apps [0..<QueryInfoKey key] of
             Inl (e, apps) \<Rightarrow> if e = FileNotFoundError then enum_hives w apps rest else Inl e
           | Inr apps \<Rightarrow> enum_hives w apps rest))"

text \<open>
  \<open>sorted(installed_apps, key=lambda x: x['name'])\<close>, outside both handlers. \<open>sorted\<close> is
  the stable sort of the library by the \<open><\<close> of the keys, and \<open>py_lt\<close> is that \<open><\<close>:
  values of one type are compared (strings, byte strings and lists in lexicographic
  order), values of two types and two \<open>None\<close> raise \<open>TypeError\<close>. The sort is taken as
  an insertion sort: which comparisons the library makes is not modelled, only that
  every element of a list of two or more is compared with another one, and that an
  exception of a comparison ends the sort.
\<close>

fun py_lt :: "py_value \<Rightarrow> py_value \<Rightarrow> exn + bool" where
  "py_lt (PyStr a) (PyStr b) = Inr (a < b)"
| "py_lt (PyInt a) (PyInt b) = Inr (a < b)"
| "py_lt (PyBytes a) (PyBytes b) = Inr (a < b)"
| "py_lt (PyList a) (PyList b) = Inr (a < b)"
| "py_lt a b = Inl TypeError"

fun py_insort :: "installed_app \<Rightarrow> installed_app list \<Rightarrow> exn + installed_app list" where
  "py_insort x [] = Inr [x]"
| "py_insort x (y # ys) =
     (case py_lt (app_name y) (app_name x) of
        Inl e \<Rightarrow> Inl e
      | Inr False \<Rightarrow> Inr (x # y # ys)
      | Inr True \<Rightarrow> (case py_insort x ys of Inl e \<Rightarrow> Inl e | Inr zs \<Rightarrow> Inr (y # zs)))"

fun py_sorted :: "installed_app list \<Rightarrow> exn + installed_app list" where
  "py_sorted [] = Inr []"
| "py_sorted (x # xs) = (case py_sorted xs of Inl e \<Rightarrow> Inl e | Inr ys \<Rightarrow> py_insort x ys)"

definition get_installed_apps :: "world \<Rightarrow> exn + installed_app list" where
  "get_installed_apps w =
     (case enum_hives w [] [HKEY_CURRENT_USER, HKEY_LOCAL_MACHINE] of
        Inl e \<Rightarrow> Inl e
      | Inr installed_apps \<Rightarrow> py_sorted installed_apps)"

section \<open>SystemCleaner\<close>

subsection \<open>Deletion\<close>

text \<open>
  \<open>modify f p n\<close> replaces the node at path \<open>p\<close> below \<open>n\<close> by \<open>f\<close> of it (\<open>None\<close> removes
  the entry), resolving the path as \<open>lookup\<close> does.
\<close>

fun on_dir :: "((string \<times> node) list \<Rightarrow> (string \<times> node) list) \<Rightarrow> node \<Rightarrow> node" where
  "on_dir g (Dir es) = Dir (g es)"
| "on_dir g (Link (Some t)) = Link (Some (on_dir g t))"
| "on_dir g (Link None) = Link None"
| "on_dir g (File n) = File n"

fun upd_entry ::
  "string \<Rightarrow> (node \<Rightarrow> node option) \<Rightarrow> (string \<times> node) list \<Rightarrow> (string \<times> node) list"
where
  "upd_entry c g [] = []"
| "upd_entry c g (e # es) =
     (if fst e = c then (case g (snd e) of None \<Rightarrow> es | Some n' \<Rightarrow> (c, n') # es)
      else e # upd_entry c g es)"

primrec modify :: "(node \<Rightarrow> node option) \<Rightarrow> path \<Rightarrow> node \<Rightarrow> node option" where
  "modify f [] = f"
| "modify f (c # cs) = (\<lambda>n. Some (on_dir (upd_entry c (modify f cs)) n))"

text \<open>The root of the tree itself cannot be removed: at most it is emptied.\<close>

definition modify_root :: "(node \<Rightarrow> node option) \<Rightarrow> path \<Rightarrow> node \<Rightarrow> node" where
  "modify_root f p n = (case modify f p n of Some n' \<Rightarrow> n' | None \<Rightarrow> Dir [])"

text \<open>
  \<open>os.remove\<close> removes a file, or a link itself; it raises on a directory, on a missing
  path and where deletion is refused.
\<close>

definition os_remove :: "world \<Rightarrow> path \<Rightarrow> exn + world" where
  "os_remove w p =
     (case lstat w p of
        None \<Rightarrow> Inl FileNotFoundError
      | Some (Dir es) \<Rightarrow> Inl PermissionError
      | Some _ \<Rightarrow>
          if delete_fails w p \<or> p = [] then Inl PermissionError
          else Inr (w\<lparr>fs_root := modify_root (\<lambda>n. None) p (fs_root w)\<rparr>))"

text \<open>
  \<open>shutil.rmtree(path, ignore_errors=True)\<close>: every entry is removed where deletion is not
  refused (a link is unlinked, not followed), a directory that cannot be listed keeps
  its entries, and a directory is removed once it is empty. On a path that is a link or
  a file nothing is removed, and nothing is raised.
\<close>

fun rmtree_node :: "(path \<Rightarrow> bool) \<Rightarrow> (path \<Rightarrow> bool) \<Rightarrow> path \<Rightarrow> node \<Rightarrow> node option"
  and rmtree_entries ::
    "(path \<Rightarrow> bool) \<Rightarrow> (path \<Rightarrow> bool) \<Rightarrow> path \<Rightarrow> (string \<times> node) list
      \<Rightarrow> (string \<times> node) list"
where
  "rmtree_node df sf p (Dir es) =
     (let es' = (if sf p then es else rmtree_entries df sf p es)
      in if es' = [] \<and> \<not> df p then None else Some (Dir es'))"
| "rmtree_node df sf p (File n) = (if df p then Some (File n) else None)"
| "rmtree_node df sf p (Link t) = (if df p then Some (Link t) else None)"
| "rmtree_entries df sf p [] = []"
| "rmtree_entries df sf p (e # es) =
     (case rmtree_node df sf (p @ [fst e]) (snd e) of
        None \<Rightarrow> rmtree_entries df sf p es
      | Some n' \<Rightarrow> (fst e, n') # rmtree_entries df sf p es)"

definition shutil_rmtree :: "world \<Rightarrow> path \<Rightarrow> world" where
  "shutil_rmtree w p =
     (case lstat w p of
        Some (Dir es) \<Rightarrow>
          w\<lparr>fs_root :=
              modify_root (rmtree_node (delete_fails w) (scandir_fails w) p) p (fs_root w)\<rparr>
      | _ \<Rightarrow> w)"

subsection \<open>\<open>clean_directory_safely\<close>\<close>

text \<open>
  Other processes may change the machine while the function runs: \<open>env k\<close> is what they
  do at the \<open>k\<close>-th point between the two measurements (0: after the first measurement,
  1: between the test of the kind of the path and the deletion, 2: after the deletion).
  The identity is the run without interference. A clean result is the pair
  \<open>(files deleted, bytes freed)\<close>.

  \<open>try_delete\<close> is the \<open>try\<close> block, with its handler \<open>except Exception: pass\<close>.
\<close>

type_synonym interference = "nat \<Rightarrow> world \<Rightarrow> world"

definition try_delete :: "interference \<Rightarrow> world \<Rightarrow> path \<Rightarrow> world" where
  "try_delete env w p =
     (if path_isfile w p then
        (case os_remove (env 1 w) p of Inl e \<Rightarrow> env 1 w | Inr w' \<Rightarrow> w')
      else if path_isdir w p then shutil_rmtree (env 1 w) p
      else w)"

definition clean_directory_safely ::
  "interference \<Rightarrow> world \<Rightarrow> path \<Rightarrow> (exn + int \<times> int) \<times> world"
where
  "clean_directory_safely env w p =
     (if \<not> path_exists w p then (Inr (0, 0), w)
      else
        (case scan_directory_safely w p of
           Inl e \<Rightarrow> (Inl e, w)
         | Inr initial \<Rightarrow>
             if snd initial = 0 then (Inr (0, 0), w)
             else
               (let w' = env 2 (try_delete env (env 0 w) p) in
                case scan_directory_safely w' p of
                  Inl e \<Rightarrow> (Inl e, w')
                | Inr final \<Rightarrow>
                    (Inr (max 0 (snd initial - snd final), max 0 (fst initial - fst final)),
                     w'))))"

subsection \<open>\<open>clean_firefox_cache\<close>\<close>

fun clean_profiles ::
  "interference \<Rightarrow> world \<Rightarrow> path \<Rightarrow> int \<times> int \<Rightarrow> string list
    \<Rightarrow> ((exn \<times> int \<times> int) + int \<times> int) \<times> world"
where
  "clean_profiles env w firefox_profiles_dir a [] = (Inr a, w)"
| "clean_profiles env w firefox_profiles_dir a (profile # ps) =
     (let cache_dir = firefox_profiles_dir @ [profile, ''cache2''] in
      if path_isdir w cache_dir then
        (case clean_directory_safely env w cache_dir of
           (Inl e, w') \<Rightarrow> (Inl (e, a), w')
         | (Inr df, w') \<Rightarrow>
             clean_profiles env w' firefox_profiles_dir (fst a + fst df, snd a + snd df) ps)
      else clean_profiles env w firefox_profiles_dir a ps)"

definition clean_firefox_try ::
  "interference \<Rightarrow> world \<Rightarrow> path \<Rightarrow> ((exn \<times> int \<times> int) + int \<times> int) \<times> world"
where
  "clean_firefox_try env w firefox_profiles_dir =
     (if path_exists w firefox_profiles_dir then
        (case os_listdir w firefox_profiles_dir of
           Inl e \<Rightarrow> (Inl (e, (0, 0)), w)
         | Inr profiles \<Rightarrow> clean_profiles env w firefox_profiles_dir (0, 0) profiles)
      else (Inr (0, 0), w))"

definition clean_firefox_cache ::
  "interference \<Rightarrow> world \<Rightarrow> path \<Rightarrow> (exn + int \<times> int) \<times> world"
where
  "clean_firefox_cache env w firefox_profiles_dir =
     (case clean_firefox_try env w firefox_profiles_dir of
        (Inr a, w') \<Rightarrow> (Inr a, w')
      | (Inl (e, a), w') \<Rightarrow> (if is_OSError e then Inr a else Inl e, w'))"

subsection \<open>\<open>clear_run_history\<close>\<close>

text \<open>
  \<open>OpenKey\<close> on the \<open>RunMRU\<close> key gives \<open>run_mru w\<close>. \<open>DeleteValue\<close> raises
  \<open>FileNotFoundError\<close> on a value that is not there; \<open>SetValueEx\<close> writes a value.
\<close>

definition DeleteValue :: "world \<Rightarrow> reg_values \<Rightarrow> string \<Rightarrow> exn + reg_values" where
  "DeleteValue w vals value_name =
     (case delete_value_fails w value_name of
        Some e \<Rightarrow> Inl e
      | None \<Rightarrow>
          if map_of vals value_name = None then Inl FileNotFoundError
          else Inr (AList.delete value_name vals))"

definition SetValueEx :: "world \<Rightarrow> reg_values \<Rightarrow> string \<Rightarrow> string \<Rightarrow> exn + reg_values" where
  "SetValueEx w vals value_name v =
     (case set_value_fails w of
        Some e \<Rightarrow> Inl e
      | None \<Rightarrow> Inr (AList.update value_name v vals))"

text \<open>
  The loop \<open>for value_name in list(mrulist)\<close>: every character of the list is the name of
  a value. Its handler is \<open>except FileNotFoundError: continue\<close>; any other exception
  leaves the loop, with the values deleted so far gone.
\<close>

fun delete_mru_values :: "world \<Rightarrow> reg_values \<Rightarrow> string \<Rightarrow> (exn \<times> reg_values) + reg_values"
where
  "delete_mru_values w vals [] = Inr vals"
| "delete_mru_values w vals (c # cs) =
     (case DeleteValue w vals [c] of
        Inr vals' \<Rightarrow> delete_mru_values w vals' cs
      | Inl e \<Rightarrow>
          if e = FileNotFoundError then delete_mru_values w vals cs else Inl (e, vals))"

text \<open>The whole body is inside \<open>try ... except Exception: return 0, 0\<close>.\<close>

definition clear_run_history :: "world \<Rightarrow> (int \<times> int) \<times> world" where
  "clear_run_history w =
     (case run_mru w of
        Inl e \<Rightarrow> ((0, 0), w)
      | Inr vals \<Rightarrow>
          (case QueryValueEx vals ''MRUList'' of
             Inl e \<Rightarrow> ((0, 0), w)
           | Inr mrulist \<Rightarrow>
               (case delete_mru_values w vals mrulist of
                  Inl (e, vals') \<Rightarrow> ((0, 0), w\<lparr>run_mru := Inr vals'\<rparr>)
                | Inr vals' \<Rightarrow>
                    (case SetValueEx w vals' ''MRUList'' [] of
                       Inl e \<Rightarrow> ((0, 0), w\<lparr>run_mru := Inr vals'\<rparr>)
                     | Inr vals'' \<Rightarrow> ((1, 1024), w\<lparr>run_mru := Inr vals''\<rparr>)))))"

subsection \<open>\<open>clean_location\<close>\<close>

fun clean_matches ::
  "interference \<Rightarrow> world \<Rightarrow> int \<times> int \<Rightarrow> string list \<Rightarrow> (exn + int \<times> int) \<times> world"
where
  "clean_matches env w a [] = (Inr a, w)"
| "clean_matches env w a (m # ms) =
     (case clean_directory_safely env w (path_of m) of
        (Inl e, w') \<Rightarrow> (Inl e, w')
      | (Inr df, w') \<Rightarrow> clean_matches env w' (fst a + fst df, snd a + snd df) ms)"

text \<open>What one pattern deletes and frees; then the loop over \<open>location_paths\<close>.\<close>

definition clean_pattern ::
  "interference \<Rightarrow> world \<Rightarrow> string \<Rightarrow> (exn + int \<times> int) \<times> world"
where
  "clean_pattern env w path_pattern =
     (if path_pattern = ''REGISTRY_CLEANUP'' then
        (case clear_run_history w of (df, w') \<Rightarrow> (Inr df, w'))
      else if is_firefox_profiles path_pattern then
        clean_firefox_cache env w (path_of path_pattern)
      else
        (case glob_glob w path_pattern of
           Inl e \<Rightarrow> (Inl e, w)
         | Inr ms \<Rightarrow> clean_matches env w (0, 0) ms))"

fun clean_patterns ::
  "interference \<Rightarrow> world \<Rightarrow> int \<times> int \<Rightarrow> string list \<Rightarrow> (exn + int \<times> int) \<times> world"
where
  "clean_patterns env w a [] = (Inr a, w)"
| "clean_patterns env w a (path_pattern # rest) =
     (case clean_pattern env w path_pattern of
        (Inl e, w') \<Rightarrow> (Inl e, w')
      | (Inr df, w') \<Rightarrow> clean_patterns env w' (fst a + fst df, snd a + snd df) rest)"

definition clean_location ::
  "interference \<Rightarrow> world \<Rightarrow> string list \<Rightarrow> (exn + int \<times> int) \<times> world"
where
  "clean_location env w location_paths = clean_patterns env w (0, 0) location_paths"

section \<open>The callers of a scan pass and of a clean pass\<close>

text \<open>
  \<open>scan_thread\<close> and \<open>clean_thread\<close> run a whole pass inside
  \<open>try ... except Exception as e\<close>, and hand the outcome to the presentation layer:
  \<open>scan_complete\<close> or \<open>scan_error\<close>, \<open>clean_complete\<close> or \<open>clean_error\<close>.
  \<open>update_status\<close> is the presentation layer's, and may raise.
\<close>

datatype scan_outcome = scan_complete "string \<rightharpoonup> scan_entry" | scan_error exn

datatype clean_outcome = clean_complete int int | clean_error exn

definition scan_thread :: "(string \<Rightarrow> exn option) \<Rightarrow> world \<Rightarrow> catalog \<Rightarrow> scan_outcome" where
  "scan_thread update_status w temp_locations =
     (case scan_all_locations (Some (\<lambda>p m. update_status m)) w temp_locations of
        Inr results \<Rightarrow> scan_complete results
      | Inl e \<Rightarrow> scan_error e)"

fun clean_items ::
  "(string \<Rightarrow> exn option) \<Rightarrow> interference \<Rightarrow> catalog \<Rightarrow> world \<Rightarrow> int \<times> int \<Rightarrow> string list
    \<Rightarrow> (exn + int \<times> int) \<times> world"
where
  "clean_items update_status env temp_locations w a [] = (Inr a, w)"
| "clean_items update_status env temp_locations w a (item # rest) =
     (case update_status (''Cleaning: '' @ item) of
        Some e \<Rightarrow> (Inl e, w)
      | None \<Rightarrow>
          (case map_of temp_locations item of
             None \<Rightarrow> (Inl KeyError, w)
           | Some paths \<Rightarrow>
               (case clean_location env w paths of
                  (Inl e, w') \<Rightarrow> (Inl e, w')
                | (Inr df, w') \<Rightarrow>
                    clean_items update_status env temp_locations w'
                      (fst a + fst df, snd a + snd df) rest)))"

definition clean_thread ::
  "(string \<Rightarrow> exn option) \<Rightarrow> interference \<Rightarrow> catalog \<Rightarrow> world \<Rightarrow> string list
    \<Rightarrow> clean_outcome \<times> world"
where
  "clean_thread update_status env temp_locations w selected_items =
     (case clean_items update_status env temp_locations w (0, 0) selected_items of
        (Inr a, w') \<Rightarrow> (clean_complete (fst a) (snd a), w')
      | (Inl e, w') \<Rightarrow> (clean_error e, w'))"

section \<open>What a scan should account for\<close>

text \<open>
  The reference accounting of a tree, independent of the walk: the pair of total size and
  file count of the regular files that can be read, over the directories that can be
  listed; links count for nothing and are not descended into. \<open>gf\<close> and \<open>sf\<close> say, by
  path, which files cannot be read and which directories cannot be listed; on a machine
  \<open>w\<close> a file cannot be read when it is unreachable or its size cannot be read.
\<close>

definition unreadable :: "world \<Rightarrow> path \<Rightarrow> bool" where
  "unreadable w p = (stat_fails w p \<or> getsize_fails w p)"

definition acc_add :: "acc \<Rightarrow> acc \<Rightarrow> acc" where
  "acc_add a b = (fst a + fst b, snd a + snd b)"

text \<open>No two entries of a directory share a name.\<close>

fun wf_node :: "node \<Rightarrow> bool" where
  "wf_node (Dir es) = (distinct (map fst es) \<and> (\<forall>e \<in> set es. wf_node (snd e)))"
| "wf_node (File n) = True"
| "wf_node (Link t) = True"

fun tree_total :: "(path \<Rightarrow> bool) \<Rightarrow> (path \<Rightarrow> bool) \<Rightarrow> path \<Rightarrow> node \<Rightarrow> acc"
  and entries_total :: "(path \<Rightarrow> bool) \<Rightarrow> (path \<Rightarrow> bool) \<Rightarrow> path \<Rightarrow> (string \<times> node) list \<Rightarrow> acc"
where
  "tree_total gf sf p (File n) = (if gf p then (0, 0) else (int n, 1))"
| "tree_total gf sf p (Link t) = (0, 0)"
| "tree_total gf sf p (Dir es) = (if sf p then (0, 0) else entries_total gf sf p es)"
| "entries_total gf sf p [] = (0, 0)"
| "entries_total gf sf p (e # es) =
     acc_add (tree_total gf sf (p @ [fst e]) (snd e)) (entries_total gf sf p es)"

text \<open>The sizes of the regular files of a tree, subdirectories descended, links left out.\<close>

fun regular_files :: "node \<Rightarrow> nat list"
  and regular_files_entries :: "(string \<times> node) list \<Rightarrow> nat list"
where
  "regular_files (File n) = [n]"
| "regular_files (Link t) = []"
| "regular_files (Dir es) = regular_files_entries es"
| "regular_files_entries [] = []"
| "regular_files_entries (e # es) = regular_files (snd e) @ regular_files_entries es"

text \<open>The parts of a directory's total that come from its subdirectories and from its files.\<close>

fun files_total :: "(path \<Rightarrow> bool) \<Rightarrow> path \<Rightarrow> (string \<times> node) list \<Rightarrow> acc" where
  "files_total gf p [] = (0, 0)"
| "files_total gf p (e # es) =
     acc_add (case snd e of File n \<Rightarrow> tree_total gf (\<lambda>_. False) (p @ [fst e]) (snd e) | _ \<Rightarrow> (0, 0))
       (files_total gf p es)"

fun dirs_total :: "(path \<Rightarrow> bool) \<Rightarrow> (path \<Rightarrow> bool) \<Rightarrow> path \<Rightarrow> (string \<times> node) list \<Rightarrow> acc" where
  "dirs_total gf sf p [] = (0, 0)"
| "dirs_total gf sf p (e # es) =
     acc_add (case snd e of Dir es' \<Rightarrow> tree_total gf sf (p @ [fst e]) (snd e) | _ \<Rightarrow> (0, 0))
       (dirs_total gf sf p es)"


text \<open>\<open>at_path w tp d\<close>: below \<open>tp\<close>, paths resolve as they do below the node \<open>d\<close>.\<close>

definition at_path :: "world \<Rightarrow> path \<Rightarrow> node \<Rightarrow> bool" where
  "at_path w tp d = (\<forall>c cs. lookup (fs_root w) (tp @ c # cs) = lookup d (c # cs))"


section \<open>Example machines\<close>

text \<open>
  A matcher for patterns without wildcards (a pattern matches itself when the path is
  there), a machine on which nothing fails, and a small tree: a directory \<open>tmp\<close> with
  two files, a subdirectory, a link to a file and a dangling link; a file; a link to a
  file; a directory that holds only a link.
\<close>

definition plain_glob :: "node \<Rightarrow> string \<Rightarrow> exn + string list" where
  "plain_glob t pat = Inr (if lookup t (path_of pat) = None then [] else [pat])"

definition quiet_world :: "node \<Rightarrow> world" where
  "quiet_world t =
     \<lparr>fs_root = t, stat_fails = (\<lambda>p. False), getsize_fails = (\<lambda>p. False), scandir_fails = (\<lambda>p. False),
      delete_fails = (\<lambda>p. False), glob_of = plain_glob,
      uninstall_key = (\<lambda>h. Inl FileNotFoundError), run_mru = Inl FileNotFoundError,
      delete_value_fails = (\<lambda>v. None), set_value_fails = None\<rparr>"

definition example_tmp :: node where
  "example_tmp =
     Dir [(''a.log'', File 10), (''b.log'', File 20),
          (''sub'', Dir [(''c.bin'', File 5), (''up'', Link (Some (Dir [])))]),
          (''latest'', Link (Some (File 10))), (''gone'', Link None)]"

definition example_tree :: node where
  "example_tree =
     Dir [(''tmp'', example_tmp), (''note.txt'', File 7),
          (''shortcut'', Link (Some (File 7))),
          (''links'', Dir [(''l'', Link (Some (File 3)))])]"

definition faulty_world :: world where
  "faulty_world =
     (quiet_world example_tree)
       \<lparr>stat_fails := (\<lambda>p. p = [''tmp'', ''sub'', ''c.bin''] \<or> p = [''shortcut'']),
        getsize_fails := (\<lambda>p. p = [''tmp'', ''b.log''] \<or> p = [''note.txt'']),
        scandir_fails := (\<lambda>p. p = [''links''])\<rparr>"

text \<open>A directory that holds three files and two links, and nothing else.\<close>

definition flat_dir_world :: world where
  "flat_dir_world =
     quiet_world (Dir [(''cache'',
       Dir (map (\<lambda>x. (fst x, File (snd x))) [(''f1'', 100), (''f2'', 250), (''f3'', 0)] @
            map (\<lambda>x. (fst x, Link (snd x))) [(''l1'', Some (File 100)), (''l2'', None)]))])"

text \<open>
  Another process that, once the deletion is over, writes a large file where the target
  was.
\<close>

definition late_writer :: interference where
  "late_writer k w =
     (if k = 2 then w\<lparr>fs_root := Dir [(''tmp'', Dir [(''new.bin'', File 1000)])]\<rparr> else w)"

definition no_interference :: interference where
  "no_interference k w = w"

text \<open>
  What the scan of a profile root should sum: the measurement of the \<open>cache2\<close>
  subdirectory of every listed child that has one (\<open>measured\<close> is the result of
  \<open>scan_directory_safely\<close>).
\<close>

definition measured :: "world \<Rightarrow> path \<Rightarrow> acc" where
  "measured w p = (case scan_directory_safely w p of Inr a \<Rightarrow> a | Inl e \<Rightarrow> (0, 0))"

fun profiles_total :: "world \<Rightarrow> path \<Rightarrow> string list \<Rightarrow> acc" where
  "profiles_total w d [] = (0, 0)"
| "profiles_total w d (profile # ps) =
     acc_add (if path_isdir w (d @ [profile, ''cache2''])
              then measured w (d @ [profile, ''cache2'']) else (0, 0))
       (profiles_total w d ps)"


text \<open>
  A profile root with three profiles, each with a cache subdirectory of two files of 10
  and 20 bytes; and the same root with, besides, a file and a profile that has no cache
  subdirectory.
\<close>

definition profile_cache :: node where
  "profile_cache = Dir [(''cache2'', Dir [(''entry1'', File 10), (''entry2'', File 20)])]"

definition firefox_world :: world where
  "firefox_world =
     quiet_world (Dir [(''Firefox'', Dir [(''Profiles'',
       Dir [(''a1.default'', profile_cache), (''b2.release'', profile_cache),
            (''c3.dev'', profile_cache)])])])"

definition firefox_world_mixed :: world where
  "firefox_world_mixed =
     quiet_world (Dir [(''Firefox'', Dir [(''Profiles'',
       Dir [(''a1.default'', profile_cache), (''profiles.ini'', File 300),
            (''b2.release'', profile_cache), (''fresh'', Dir [(''prefs.js'', File 40)]),
            (''c3.dev'', profile_cache)])])])"

text \<open>
  A \<open>RunMRU\<close> key with four stored values and its list-order value; and the same key on a
  machine that refuses to delete the value \<open>b\<close>.
\<close>

definition mru_world :: world where
  "mru_world =
     (quiet_world (Dir []))
       \<lparr>run_mru := Inr [(''a'', ''cmd''), (''b'', ''notepad''), (''MRUList'', ''dcba''),
                         (''c'', ''regedit''), (''d'', ''calc'')]\<rparr>"

definition mru_world_denied :: world where
  "mru_world_denied =
     mru_world\<lparr>delete_value_fails := (\<lambda>v. if v = ''b'' then Some PermissionError else None)\<rparr>"

text \<open>
  What the list of installed applications should hold, in the words of the
  specification: for every subkey of a root, in the order of enumeration, the entry of
  its display name and uninstall command when the subkey opens and has both fields, both
  non-empty; nothing for a root that is absent. The predicates say which failures
  the registry shows: a subkey fails to open with an \<open>OSError\<close> only, and a root opens
  or is absent; and when the display names that are kept are all strings.
\<close>

definition valid_app :: "exn + typed_values \<Rightarrow> installed_app option" where
  "valid_app r =
     (case r of
        Inl e \<Rightarrow> None
      | Inr vals \<Rightarrow>
          (case map_of vals ''DisplayName'' of
             None \<Rightarrow> None
           | Some n \<Rightarrow>
               (case map_of vals ''UninstallString'' of
                  None \<Rightarrow> None
                | Some c \<Rightarrow>
                    if truthy n \<and> truthy c then Some \<lparr>app_name = n, app_command = c\<rparr>
                    else None)))"

definition listed_apps :: "subkeys \<Rightarrow> installed_app list" where
  "listed_apps key = List.map_filter (\<lambda>nm. valid_app (OpenKey_sub key nm)) (map fst key)"

definition hive_apps :: "world \<Rightarrow> hive \<Rightarrow> installed_app list" where
  "hive_apps w h = (case uninstall_key w h of Inl e \<Rightarrow> [] | Inr key \<Rightarrow> listed_apps key)"

definition subkey_errors_are_OSErrors :: "subkeys \<Rightarrow> bool" where
  "subkey_errors_are_OSErrors key = list_all (\<lambda>s. case snd s of Inl e \<Rightarrow> is_OSError e | Inr vals \<Rightarrow> True) key"

definition root_opens_or_is_absent :: "world \<Rightarrow> hive \<Rightarrow> bool" where
  "root_opens_or_is_absent w h =
     (case uninstall_key w h of
        Inl e \<Rightarrow> e = FileNotFoundError
      | Inr key \<Rightarrow> subkey_errors_are_OSErrors key)"

definition name_str :: "installed_app \<Rightarrow> string" where
  "name_str a = (case app_name a of PyStr s \<Rightarrow> s | _ \<Rightarrow> [])"

fun is_str :: "py_value \<Rightarrow> bool" where
  "is_str (PyStr s) = True"
| "is_str v = False"

definition names_are_strings :: "installed_app list \<Rightarrow> bool" where
  "names_are_strings apps = list_all (\<lambda>a. is_str (app_name a)) apps"

fun comparable :: "py_value \<Rightarrow> py_value \<Rightarrow> bool" where
  "comparable (PyStr a) (PyStr b) = True"
| "comparable (PyInt a) (PyInt b) = True"
| "comparable (PyBytes a) (PyBytes b) = True"
| "comparable (PyList a) (PyList b) = True"
| "comparable a b = False"


text \<open>
  A registry with five subkeys under the user's root (one valid, one without name, one
  without command, one with an empty name, one that cannot be opened) and two valid ones
  under the machine's root, one of them with the name of the user's; and the same
  registry without the user's root.
\<close>

definition apps_world :: world where
  "apps_world =
     (quiet_world (Dir []))
       \<lparr>uninstall_key := (\<lambda>h. case h of
          HKEY_CURRENT_USER \<Rightarrow>
            Inr [(''Zeta'', Inr [(''DisplayName'', PyStr ''Zeta Tool''), (''UninstallString'', PyStr ''zeta.exe /u'')]),
                 (''NoName'', Inr [(''UninstallString'', PyStr ''x.exe'')]),
                 (''NoCommand'', Inr [(''DisplayName'', PyStr ''Broken'')]),
                 (''Empty'', Inr [(''DisplayName'', PyStr []), (''UninstallString'', PyStr ''e.exe'')]),
                 (''Locked'', Inl PermissionError)]
        | HKEY_LOCAL_MACHINE \<Rightarrow>
            Inr [(''Zeta64'', Inr [(''DisplayName'', PyStr ''Zeta Tool''), (''UninstallString'', PyStr ''zeta64.exe /u'')]),
                 (''Alpha'', Inr [(''UninstallString'', PyStr ''alpha.exe''), (''DisplayName'', PyStr ''Alpha'')])])\<rparr>"

definition apps_world_no_user_key :: world where
  "apps_world_no_user_key =
     apps_world\<lparr>uninstall_key := (\<lambda>h. case h of
          HKEY_CURRENT_USER \<Rightarrow> Inl FileNotFoundError
        | HKEY_LOCAL_MACHINE \<Rightarrow> uninstall_key apps_world HKEY_LOCAL_MACHINE)\<rparr>"

text \<open>
  A registry where the user's root has an application with a display name of type
  \<open>REG_SZ\<close> and one whose display name was written as a \<open>REG_DWORD\<close>, both with an
  uninstall command; and one where the application with the numeric name is alone.
\<close>

definition apps_world_mixed :: world where
  "apps_world_mixed =
     (quiet_world (Dir []))
       \<lparr>uninstall_key := (\<lambda>h. case h of
          HKEY_CURRENT_USER \<Rightarrow>
            Inr [(''Zeta'', Inr [(''DisplayName'', PyStr ''Zeta Tool''),
                                (''UninstallString'', PyStr ''zeta.exe /u'')]),
                 (''Seven'', Inr [(''DisplayName'', PyInt 7),
                                 (''UninstallString'', PyStr ''seven.exe /u'')])]
        | HKEY_LOCAL_MACHINE \<Rightarrow> Inl FileNotFoundError)\<rparr>"

definition apps_world_numeric :: world where
  "apps_world_numeric =
     (quiet_world (Dir []))
       \<lparr>uninstall_key := (\<lambda>h. case h of
          HKEY_CURRENT_USER \<Rightarrow>
            Inr [(''Seven'', Inr [(''DisplayName'', PyInt 7),
                                 (''UninstallString'', PyStr ''seven.exe /u'')])]
        | HKEY_LOCAL_MACHINE \<Rightarrow> Inl FileNotFoundError)\<rparr>"

text \<open>
  Two categories of the catalog, \<open>Clean Prefetch\<close> and \<open>Clean Windows Temp\<close>, with
  their patterns (the \<open>Prefetch\<close> and the \<open>Temp\<close> directory of \<open>Windows\<close>), on a
  machine that has both directories; the same machine with a matcher that raises on the
  first pattern; and a progress callback that raises when the second category is
  announced.
\<close>

definition prefetch_pattern :: string where
  "prefetch_pattern = ''C:'' @ [CHR 0x5C] @ ''Windows'' @ [CHR 0x5C] @ ''Prefetch''"

definition windows_temp_pattern :: string where
  "windows_temp_pattern = ''C:'' @ [CHR 0x5C] @ ''Windows'' @ [CHR 0x5C] @ ''Temp''"

definition two_categories :: catalog where
  "two_categories =
     [(''Clean Prefetch'', [prefetch_pattern]), (''Clean Windows Temp'', [windows_temp_pattern])]"

definition windows_tree :: node where
  "windows_tree =
     Dir [(''C:'', Dir [(''Windows'',
       Dir [(''Prefetch'', Dir [(''APP.pf'', File 50)]), (''Temp'', example_tmp)])])]"

definition matcher_fails_world :: world where
  "matcher_fails_world =
     (quiet_world windows_tree)
       \<lparr>glob_of := (\<lambda>t pat. if pat = prefetch_pattern then Inl ValueError else plain_glob t pat)\<rparr>"

definition callback_fails :: progress_callback where
  "callback_fails x msg = (if msg = ''Scanning: Clean Windows Temp'' then Some RuntimeError else None)"

section \<open>What a deletion should leave\<close>

text \<open>
  \<open>distinct_names\<close>: no two entries of a directory share a name, also in what links point
  to. \<open>diverge p q\<close>: the paths \<open>p\<close> and \<open>q\<close> part at some component, so neither leads to
  the other. \<open>fully_deletable df sf p n\<close>: nothing of the tree \<open>n\<close> at \<open>p\<close> is refused
  deletion (\<open>df\<close>) and every directory of it can be listed (\<open>sf\<close>).
\<close>

fun distinct_names :: "node \<Rightarrow> bool" where
  "distinct_names (File n) = True"
| "distinct_names (Link None) = True"
| "distinct_names (Link (Some t)) = distinct_names t"
| "distinct_names (Dir es) = (distinct (map fst es) \<and> (\<forall>e \<in> set es. distinct_names (snd e)))"

fun diverge :: "path \<Rightarrow> path \<Rightarrow> bool" where
  "diverge [] q = False"
| "diverge (c # cs) [] = False"
| "diverge (c # cs) (d # ds) = (if c = d then diverge cs ds else True)"

fun fully_deletable :: "(path \<Rightarrow> bool) \<Rightarrow> (path \<Rightarrow> bool) \<Rightarrow> path \<Rightarrow> node \<Rightarrow> bool"
  and entries_deletable ::
    "(path \<Rightarrow> bool) \<Rightarrow> (path \<Rightarrow> bool) \<Rightarrow> path \<Rightarrow> (string \<times> node) list \<Rightarrow> bool"
where
  "fully_deletable df sf p (Dir es) = (\<not> df p \<and> \<not> sf p \<and> entries_deletable df sf p es)"
| "fully_deletable df sf p (File n) = (\<not> df p)"
| "fully_deletable df sf p (Link t) = (\<not> df p)"
| "entries_deletable df sf p [] = True"
| "entries_deletable df sf p (e # es) =
     (fully_deletable df sf (p @ [fst e]) (snd e) \<and> entries_deletable df sf p es)"


text \<open>
  A machine that refuses to delete a file and an entry of \<open>tmp\<close>; and a machine with a
  directory and a link to a directory.
\<close>

definition refusing_world :: world where
  "refusing_world =
     (quiet_world example_tree)
       \<lparr>delete_fails := (\<lambda>p. p = [''note.txt''] \<or> p = [''tmp'', ''b.log''])\<rparr>"

definition linked_world :: world where
  "linked_world =
     quiet_world (Dir [(''real'', Dir [(''f'', File 9)]),
                       (''alias'', Link (Some (Dir [(''f'', File 9)])))])"

section \<open>Properties of the scan\<close>

lemma path_getsize_OSError: "path_getsize w p = Inl e \<Longrightarrow> is_OSError e"
  by (auto simp: path_getsize_def split: if_splits option.splits node.splits)

lemma scan_file_total: "\<exists>a'. scan_file w r a f = Inr a'"
  by (auto simp: scan_file_def Let_def split: sum.splits dest: path_getsize_OSError)

lemma scan_files_total: "\<exists>a'. scan_files w r a fs = Inr a'"
proof (induction fs arbitrary: a)
  case Nil
  show ?case by simp
next
  case (Cons f fs)
  obtain a1 where "scan_file w r a f = Inr a1"
    using scan_file_total by blast
  with Cons show ?case by simp
qed

lemma scan_walk_total: "\<exists>a'. scan_walk w a ts = Inr a'"
proof (induction ts arbitrary: a)
  case Nil
  show ?case by simp
next
  case (Cons t ts)
  obtain a1 where "scan_files w (fst t) a (snd (snd t)) = Inr a1"
    using scan_files_total by blast
  with Cons show ?case by simp
qed

lemma scan_try_cases:
  "(\<exists>a. scan_try w p = Inr a) \<or> (\<exists>e. scan_try w p = Inl (e, (0, 0)) \<and> is_OSError e)"
proof -
  obtain a1 where "scan_walk w (0, 0) (os_walk w p) = Inr a1"
    using scan_walk_total by blast
  then show ?thesis
    by (auto simp: scan_try_def split: sum.splits dest: path_getsize_OSError)
qed

lemma scan_directory_safely_total: "\<exists>a. scan_directory_safely w p = Inr a"
  using scan_try_cases [of w p] by (auto simp: scan_directory_safely_def)

lemma acc_add_simps [simp]: "acc_add (a, b) (c, d) = (a + c, b + d)"
  "acc_add (0, 0) x = x" "acc_add x (0, 0) = x"
  by (simp_all add: acc_add_def)

lemma acc_add_assoc: "acc_add (acc_add a b) c = acc_add a (acc_add b c)"
  by (simp add: acc_add_def)

lemma follow_idem: "follow n = Some m \<Longrightarrow> follow m = Some m"
  by (induction n rule: follow.induct) auto

lemma follow_not_Link: "follow n \<noteq> Some (Link t)"
  by (induction n rule: follow.induct) auto

lemma lookup_append:
  "lookup n (ps @ qs) = (case lookup n ps of Some m \<Rightarrow> lookup m qs | None \<Rightarrow> None)"
  by (induction n ps rule: lookup.induct) (auto split: option.splits node.splits)

lemma at_path_stat: "stat w p = Some d \<Longrightarrow> at_path w p d"
  by (auto simp: at_path_def stat_def lstat_def lookup_append follow_idem
      split: option.splits if_splits)

lemma at_path_child:
  assumes "at_path w tp (Dir es)" "distinct (map fst es)" "e \<in> set es"
  shows "lookup (fs_root w) (tp @ [fst e]) = Some (snd e)"
    and "snd e = Dir es' \<Longrightarrow> at_path w (tp @ [fst e]) (snd e)"
proof -
  have m: "map_of es (fst e) = Some (snd e)"
    using assms(2,3) by (cases e) simp
  show "lookup (fs_root w) (tp @ [fst e]) = Some (snd e)"
    using assms(1) m by (simp add: at_path_def)
  show "at_path w (tp @ [fst e]) (snd e)" if "snd e = Dir es'"
    using assms(1) m that by (simp add: at_path_def)
qed


lemma entries_total_split:
  "entries_total gf sf p es = acc_add (dirs_total gf sf p es) (files_total gf p es)"
  by (induction es) (auto simp: acc_add_def split: node.splits)

lemma scan_file_at:
  assumes "lstat w (r @ [f]) = Some c" "\<not> is_dir_entry c"
  shows "scan_file w r a f =
    Inr (acc_add a (case c of File n \<Rightarrow> tree_total (unreadable w) (\<lambda>_. False) (r @ [f]) c | _ \<Rightarrow> (0, 0)))"
proof (cases c)
  case (File n)
  have "\<not> stat_fails w (r @ [f])"
    using assms(1) by (auto simp: lstat_def split: if_splits)
  then show ?thesis using File assms
    by (simp add: scan_file_def path_exists_def path_islink_def path_getsize_def stat_def
        acc_add_def unreadable_def)
next
  case (Link t)
  then show ?thesis using assms
    by (simp add: scan_file_def path_islink_def acc_add_def)
next
  case (Dir es)
  then show ?thesis using assms by (simp add: is_dir_entry_def)
qed

lemma scan_file_unreachable: "stat_fails w (r @ [f]) \<Longrightarrow> scan_file w r a f = Inr a"
  by (simp add: scan_file_def Let_def path_exists_def stat_def lstat_def)

lemma scan_files_at:
  assumes "at_path w tp (Dir es)" "distinct (map fst es)" "set es' \<subseteq> set es"
  shows "scan_files w tp a (filenames es') =
    Inr (acc_add a (files_total (unreadable w) tp es'))"
  using assms(3)
proof (induction es' arbitrary: a)
  case Nil
  show ?case by (simp add: filenames_def acc_add_def)
next
  case (Cons e es')
  have mem: "e \<in> set es" and sub: "set es' \<subseteq> set es"
    using Cons.prems by auto
  have lk: "lookup (fs_root w) (tp @ [fst e]) = Some (snd e)"
    using at_path_child(1) [OF assms(1,2) mem] .
  let ?c = "case snd e of
      File n \<Rightarrow> tree_total (unreadable w) (\<lambda>_. False) (tp @ [fst e]) (snd e)
    | _ \<Rightarrow> (0, 0)"
  show ?case
  proof (cases "is_dir_entry (snd e)")
    case True
    then have "snd e \<noteq> File n" for n
      by (auto simp: is_dir_entry_def)
    then have "?c = (0, 0)"
      by (cases "snd e") auto
    with True Cons.IH [OF sub] show ?thesis
      by (simp add: filenames_def)
  next
    case False
    have fn: "filenames (e # es') = fst e # filenames es'"
      using False by (simp add: filenames_def)
    show ?thesis
    proof (cases "stat_fails w (tp @ [fst e])")
      case True
      then have "?c = (0, 0)"
        by (cases "snd e") (simp_all add: unreadable_def)
      then show ?thesis
        using fn scan_file_unreachable [OF True, of a] Cons.IH [OF sub] by simp
    next
      case reach: False
      then have l: "lstat w (tp @ [fst e]) = Some (snd e)"
        using lk by (simp add: lstat_def)
      show ?thesis
        using fn scan_file_at [OF l False, of a] Cons.IH [OF sub]
        by (simp add: acc_add_assoc)
    qed
  qed
qed

lemma scan_walk_append:
  "scan_walk w a (xs @ ys) =
     (case scan_walk w a xs of Inl x \<Rightarrow> Inl x | Inr a' \<Rightarrow> scan_walk w a' ys)"
  by (induction xs arbitrary: a) (auto split: sum.splits)

lemma scan_walk_node:
  "(\<forall>a. (\<forall>es. d = Dir es \<longrightarrow> at_path w tp d) \<longrightarrow> wf_node d \<longrightarrow>
      scan_walk w a (walk_node (scandir_fails w) tp d) =
        Inr (acc_add a (case d of Dir es \<Rightarrow> tree_total (unreadable w) (scandir_fails w) tp d
                                | _ \<Rightarrow> (0, 0))))"
  and scan_walk_children:
  "(\<forall>a es. set es' \<subseteq> set es \<longrightarrow> distinct (map fst es) \<longrightarrow> at_path w tp (Dir es) \<longrightarrow>
      (\<forall>e \<in> set es'. wf_node (snd e)) \<longrightarrow>
      scan_walk w a (walk_children (scandir_fails w) tp es') =
        Inr (acc_add a (dirs_total (unreadable w) (scandir_fails w) tp es')))"
proof (induction "scandir_fails w" tp d and "scandir_fails w" tp es'
    rule: walk_node_walk_children.induct)
  case (1 topdir es)
  show ?case
  proof (intro allI impI)
    fix a
    assume at: "\<forall>es'. Dir es = Dir es' \<longrightarrow> at_path w topdir (Dir es)" and wf: "wf_node (Dir es)"
    show "scan_walk w a (walk_node (scandir_fails w) topdir (Dir es)) =
      Inr (acc_add a (case Dir es of Dir es' \<Rightarrow> tree_total (unreadable w) (scandir_fails w) topdir (Dir es) | _ \<Rightarrow> (0, 0)))"
    proof (cases "scandir_fails w topdir")
      case True
      then show ?thesis by (simp add: acc_add_def)
    next
      case False
      have at': "at_path w topdir (Dir es)" using at by simp
      have d: "distinct (map fst es)" and wfs: "\<forall>e \<in> set es. wf_node (snd e)"
        using wf by auto
      have ch: "scan_walk w a (walk_children (scandir_fails w) topdir es) =
        Inr (acc_add a (dirs_total (unreadable w) (scandir_fails w) topdir es))"
        using 1 False d at' wfs by blast
      have fl: "scan_files w topdir b (filenames es) =
        Inr (acc_add b (files_total (unreadable w) topdir es))" for b
        using scan_files_at [OF at' d, of es b] by simp
      show ?thesis
        using False ch fl
        by (simp add: scan_walk_append entries_total_split acc_add_assoc)
    qed
  qed
next
  case (2 topdir n)
  show ?case by (simp add: acc_add_def)
next
  case (3 topdir t)
  show ?case by (simp add: acc_add_def)
next
  case (4 topdir)
  show ?case by (simp add: acc_add_def)
next
  case (5 topdir e es')
  show ?case
  proof (intro allI impI)
    fix a es
    assume sub: "set (e # es') \<subseteq> set es" and d: "distinct (map fst es)"
      and at: "at_path w topdir (Dir es)" and wfs: "\<forall>x \<in> set (e # es'). wf_node (snd x)"
    have mem: "e \<in> set es" using sub by simp
    have wfe: "wf_node (snd e)" and wfr: "\<forall>x \<in> set es'. wf_node (snd x)"
      using wfs by simp_all
    have sub': "set es' \<subseteq> set es" using sub by simp
    have atc: "\<forall>es''. snd e = Dir es'' \<longrightarrow> at_path w (topdir @ [fst e]) (snd e)"
      using at_path_child(2) [OF at d mem] by blast
    have h1: "scan_walk w a (walk_node (scandir_fails w) (topdir @ [fst e]) (snd e)) =
      Inr (acc_add a (case snd e of Dir es'' \<Rightarrow> tree_total (unreadable w) (scandir_fails w) (topdir @ [fst e]) (snd e) | _ \<Rightarrow> (0, 0)))"
      using 5(1) atc wfe by blast
    have h2: "scan_walk w b (walk_children (scandir_fails w) topdir es') =
      Inr (acc_add b (dirs_total (unreadable w) (scandir_fails w) topdir es'))" for b
      using 5(2) sub' d at wfr by blast
    show "scan_walk w a (walk_children (scandir_fails w) topdir (e # es')) =
      Inr (acc_add a (dirs_total (unreadable w) (scandir_fails w) topdir (e # es')))"
      using h1 h2 by (simp add: scan_walk_append acc_add_assoc)
  qed
qed

lemma scan_directory_safely_accounts:
  assumes "stat w p = Some d" "wf_node d"
  shows "scan_directory_safely w p =
    Inr (tree_total (unreadable w) (scandir_fails w) p d)"
proof (cases d)
  case (File n)
  have "\<not> stat_fails w p"
    using assms(1) by (auto simp: stat_def lstat_def split: if_splits)
  then show ?thesis using File assms
    by (simp add: scan_directory_safely_def scan_try_def path_exists_def path_isfile_def
        path_getsize_def unreadable_def)
next
  case (Link t)
  then show ?thesis using assms(1) follow_not_Link
    by (auto simp: stat_def split: option.splits)
next
  case (Dir es)
  have at: "\<forall>es'. d = Dir es' \<longrightarrow> at_path w p d"
    using at_path_stat [OF assms(1)] by blast
  have "scan_walk w (0, 0) (walk_node (scandir_fails w) p d) =
    Inr (acc_add (0, 0) (case d of Dir es \<Rightarrow> tree_total (unreadable w) (scandir_fails w) p d | _ \<Rightarrow> (0, 0)))"
    using scan_walk_node at assms(2) by blast
  then show ?thesis using Dir assms(1)
    by (simp add: scan_directory_safely_def scan_try_def path_exists_def path_isfile_def
        os_walk_def)
qed

section \<open>The claims about the scan\<close>

text \<open>
  Claim C3. For every path and every pattern of access failures,
  \<open>scan_directory_safely\<close> returns and never raises. A file that cannot be reached, or
  whose size cannot be read, leaves both accumulators as they were, and the whole scan
  returns the total of the files that can be read, in the directories that can be
  listed. A failure on the path argument itself (it cannot be reached, its size cannot be
  read, it cannot be listed, or it is not there) gives \<open>(0, 0)\<close>.
\<close>

theorem scan_directory_safely_never_raises:
  "(\<exists>a. scan_directory_safely w p = Inr a) \<and>
   (unreadable w (r @ [f]) \<longrightarrow> scan_file w r a f = Inr a) \<and>
   (stat w p = Some d \<and> wf_node d \<longrightarrow>
      scan_directory_safely w p = Inr (tree_total (unreadable w) (scandir_fails w) p d)) \<and>
   (stat_fails w p \<longrightarrow> scan_directory_safely w p = Inr (0, 0)) \<and>
   (path_isfile w p \<and> getsize_fails w p \<longrightarrow> scan_directory_safely w p = Inr (0, 0)) \<and>
   (path_isdir w p \<and> scandir_fails w p \<longrightarrow> scan_directory_safely w p = Inr (0, 0)) \<and>
   (\<not> path_exists w p \<longrightarrow> scan_directory_safely w p = Inr (0, 0))"
proof (intro conjI impI)
  show "\<exists>a. scan_directory_safely w p = Inr a"
    by (rule scan_directory_safely_total)
next
  assume "unreadable w (r @ [f])"
  then have "stat_fails w (r @ [f]) \<or> getsize_fails w (r @ [f])"
    by (simp add: unreadable_def)
  then show "scan_file w r a f = Inr a"
  proof
    assume "stat_fails w (r @ [f])"
    then show ?thesis by (rule scan_file_unreachable)
  next
    assume "getsize_fails w (r @ [f])"
    then show ?thesis by (simp add: scan_file_def path_getsize_def Let_def)
  qed
next
  assume "stat w p = Some d \<and> wf_node d"
  then show "scan_directory_safely w p = Inr (tree_total (unreadable w) (scandir_fails w) p d)"
    by (simp add: scan_directory_safely_accounts)
next
  assume "stat_fails w p"
  then show "scan_directory_safely w p = Inr (0, 0)"
    by (simp add: scan_directory_safely_def scan_try_def path_exists_def stat_def lstat_def)
next
  assume "path_isfile w p \<and> getsize_fails w p"
  then show "scan_directory_safely w p = Inr (0, 0)"
    by (auto simp: scan_directory_safely_def scan_try_def path_exists_def path_isfile_def
        path_getsize_def split: option.splits node.splits)
next
  assume a: "path_isdir w p \<and> scandir_fails w p"
  then obtain es where s: "stat w p = Some (Dir es)"
    by (auto simp: path_isdir_def split: option.splits node.splits)
  with a show "scan_directory_safely w p = Inr (0, 0)"
    by (simp add: scan_directory_safely_def scan_try_def path_exists_def path_isfile_def
        os_walk_def)
next
  assume "\<not> path_exists w p"
  then show "scan_directory_safely w p = Inr (0, 0)"
    by (simp add: scan_directory_safely_def scan_try_def)
qed

theorem scan_directory_safely_never_raises_witness:
  "getsize_fails faulty_world [''tmp'', ''b.log''] \<and>
   scan_file faulty_world [''tmp''] (10, 1) ''b.log'' = Inr (10, 1) \<and>
   stat_fails faulty_world [''tmp'', ''sub'', ''c.bin''] \<and>
   scan_file faulty_world [''tmp'', ''sub''] (10, 1) ''c.bin'' = Inr (10, 1) \<and>
   scan_directory_safely faulty_world [''tmp''] = Inr (10, 1) \<and>
   stat_fails faulty_world [''shortcut''] \<and>
   scan_directory_safely faulty_world [''shortcut''] = Inr (0, 0) \<and>
   path_isfile faulty_world [''note.txt''] \<and> getsize_fails faulty_world [''note.txt''] \<and>
   scan_directory_safely faulty_world [''note.txt''] = Inr (0, 0) \<and>
   path_isdir faulty_world [''links''] \<and> scandir_fails faulty_world [''links''] \<and>
   scan_directory_safely faulty_world [''links''] = Inr (0, 0) \<and>
   \<not> path_exists faulty_world [''absent''] \<and>
   scan_directory_safely faulty_world [''absent''] = Inr (0, 0)"
proof -
  have g1: "getsize_fails faulty_world [''tmp'', ''b.log'']"
    and g2: "stat_fails faulty_world [''tmp'', ''sub'', ''c.bin'']"
    and g3: "stat_fails faulty_world [''shortcut'']"
    by (simp_all add: faulty_world_def)
  have h1: "unreadable faulty_world ([''tmp''] @ [''b.log''])"
    using g1 by (simp add: unreadable_def)
  have h1': "unreadable faulty_world ([''tmp'', ''sub''] @ [''c.bin''])"
    using g2 by (simp add: unreadable_def)
  have h2: "stat faulty_world [''tmp''] = Some example_tmp \<and> wf_node example_tmp"
    by code_simp
  have v2: "tree_total (unreadable faulty_world) (scandir_fails faulty_world) [''tmp'']
      example_tmp = (10, 1)"
    by code_simp
  have h3: "path_isfile faulty_world [''note.txt''] \<and> getsize_fails faulty_world [''note.txt'']"
    by code_simp
  have h4: "path_isdir faulty_world [''links''] \<and> scandir_fails faulty_world [''links'']"
    by code_simp
  have h5: "\<not> path_exists faulty_world [''absent'']"
    by code_simp
  note t1 = scan_directory_safely_never_raises
    [of faulty_world "[''tmp'']" "[''tmp'']" "''b.log''" "(10, 1)" example_tmp]
  note t1' = scan_directory_safely_never_raises
    [of faulty_world _ "[''tmp'', ''sub'']" "''c.bin''" "(10, 1)"]
  note t2 = scan_directory_safely_never_raises [of faulty_world "[''note.txt'']"]
  note t3 = scan_directory_safely_never_raises [of faulty_world "[''links'']"]
  note t4 = scan_directory_safely_never_raises [of faulty_world "[''absent'']"]
  note t5 = scan_directory_safely_never_raises [of faulty_world "[''shortcut'']"]
  have c1: "scan_file faulty_world [''tmp''] (10, 1) ''b.log'' = Inr (10, 1)"
    using t1 h1 by blast
  have c1': "scan_file faulty_world [''tmp'', ''sub''] (10, 1) ''c.bin'' = Inr (10, 1)"
    using t1' h1' by blast
  have c2: "scan_directory_safely faulty_world [''tmp''] = Inr (10, 1)"
    using t1 h2 v2 by simp
  have c3: "scan_directory_safely faulty_world [''note.txt''] = Inr (0, 0)"
    using t2 h3 by blast
  have c4: "scan_directory_safely faulty_world [''links''] = Inr (0, 0)"
    using t3 h4 by blast
  have c5: "scan_directory_safely faulty_world [''absent''] = Inr (0, 0)"
    using t4 h5 by blast
  have c6: "scan_directory_safely faulty_world [''shortcut''] = Inr (0, 0)"
    using t5 g3 by blast
  show ?thesis
    using g1 c1 g2 c1' c2 g3 c6 h3 c3 h4 c4 h5 c5 by simp
qed

lemma tree_total_no_faults:
  "tree_total (\<lambda>q. False) (\<lambda>q. False) p d =
     (int (sum_list (regular_files d)), int (length (regular_files d)))"
  and entries_total_no_faults:
  "entries_total (\<lambda>q. False) (\<lambda>q. False) p es =
     (int (sum_list (regular_files_entries es)), int (length (regular_files_entries es)))"
  by (induction "\<lambda>q::path. False" "\<lambda>q::path. False" p d and "\<lambda>q::path. False" "\<lambda>q::path. False" p es
      rule: tree_total_entries_total.induct) simp_all

lemma regular_files_flat:
  "regular_files_entries
     (map (\<lambda>x. (fst x, File (snd x))) fs @ map (\<lambda>x. (fst x, Link (snd x))) ls) = map snd fs"
proof -
  have a: "regular_files_entries (map (\<lambda>x. (fst x, Link (snd x))) ls) = []"
    for ls :: "(string \<times> node option) list"
    by (induction ls) simp_all
  show ?thesis
    by (induction fs) (simp_all add: a)
qed

lemma wf_node_flat:
  "distinct (map fst fs @ map fst ls) \<Longrightarrow>
   wf_node (Dir (map (\<lambda>x. (fst x, File (snd x))) fs @ map (\<lambda>x. (fst x, Link (snd x))) ls))"
  by (auto simp: comp_def)

text \<open>
  Claim C2. \<open>scan_directory_safely\<close> meets the three-case reference definition: a path
  that does not exist gives \<open>(0, 0)\<close>; a regular file of size \<open>n\<close> gives \<open>(n, 1)\<close>; a
  directory gives the total size and the number of the regular files of its tree,
  subdirectories descended and symbolic links left out of both; in particular a directory
  that holds \<open>k\<close> regular files of total size \<open>S\<close> and \<open>m\<close> links gives \<open>(S, k)\<close>. The
  last three cases are for a machine on which every file can be read and every directory
  can be listed.
\<close>

theorem scan_directory_safely_three_cases:
  "(\<not> path_exists w p \<longrightarrow> scan_directory_safely w p = Inr (0, 0)) \<and>
   (lstat w p = Some (File n) \<and> \<not> getsize_fails w p \<longrightarrow>
      scan_directory_safely w p = Inr (int n, 1)) \<and>
   (stat w p = Some (Dir es) \<and> wf_node (Dir es) \<and>
    unreadable w = (\<lambda>q. False) \<and> scandir_fails w = (\<lambda>q. False) \<longrightarrow>
      scan_directory_safely w p =
        Inr (int (sum_list (regular_files (Dir es))), int (length (regular_files (Dir es))))) \<and>
   (stat w p = Some (Dir (map (\<lambda>x. (fst x, File (snd x))) fs @
                          map (\<lambda>x. (fst x, Link (snd x))) ls)) \<and>
    distinct (map fst fs @ map fst ls) \<and>
    unreadable w = (\<lambda>q. False) \<and> scandir_fails w = (\<lambda>q. False) \<longrightarrow>
      scan_directory_safely w p = Inr (int (sum_list (map snd fs)), int (length fs)))"
proof (intro conjI impI)
  assume "\<not> path_exists w p"
  then show "scan_directory_safely w p = Inr (0, 0)"
    by (simp add: scan_directory_safely_def scan_try_def)
next
  assume a: "lstat w p = Some (File n) \<and> \<not> getsize_fails w p"
  then have "\<not> stat_fails w p"
    by (auto simp: lstat_def split: if_splits)
  then have "stat w p = Some (File n)" "wf_node (File n)" "\<not> unreadable w p"
    using a by (simp_all add: stat_def unreadable_def)
  then show "scan_directory_safely w p = Inr (int n, 1)"
    by (simp add: scan_directory_safely_accounts)
next
  assume a: "stat w p = Some (Dir es) \<and> wf_node (Dir es) \<and>
    unreadable w = (\<lambda>q. False) \<and> scandir_fails w = (\<lambda>q. False)"
  then have "scan_directory_safely w p =
      Inr (tree_total (\<lambda>q. False) (\<lambda>q. False) p (Dir es))"
    using scan_directory_safely_accounts [of w p "Dir es"] by simp
  then show "scan_directory_safely w p =
      Inr (int (sum_list (regular_files (Dir es))), int (length (regular_files (Dir es))))"
    by (simp only: tree_total_no_faults)
next
  let ?d = "Dir (map (\<lambda>x. (fst x, File (snd x))) fs @ map (\<lambda>x. (fst x, Link (snd x))) ls)"
  assume a: "stat w p = Some ?d \<and> distinct (map fst fs @ map fst ls) \<and>
    unreadable w = (\<lambda>q. False) \<and> scandir_fails w = (\<lambda>q. False)"
  then have wf: "wf_node ?d"
    using wf_node_flat by blast
  have "scan_directory_safely w p = Inr (tree_total (\<lambda>q. False) (\<lambda>q. False) p ?d)"
    using scan_directory_safely_accounts [of w p ?d] a wf by simp
  then have "scan_directory_safely w p =
      Inr (int (sum_list (regular_files ?d)), int (length (regular_files ?d)))"
    by (simp only: tree_total_no_faults)
  then show "scan_directory_safely w p = Inr (int (sum_list (map snd fs)), int (length fs))"
    by (simp add: regular_files_flat)
qed

theorem scan_directory_safely_three_cases_witness:
  "\<not> path_exists (quiet_world example_tree) [''absent''] \<and>
   scan_directory_safely (quiet_world example_tree) [''absent''] = Inr (0, 0) \<and>
   lstat (quiet_world example_tree) [''note.txt''] = Some (File 7) \<and>
   scan_directory_safely (quiet_world example_tree) [''note.txt''] = Inr (7, 1) \<and>
   stat (quiet_world example_tree) [''tmp''] = Some example_tmp \<and>
   regular_files example_tmp = [10, 20, 5] \<and>
   scan_directory_safely (quiet_world example_tree) [''tmp''] = Inr (35, 3) \<and>
   scan_directory_safely flat_dir_world [''cache''] = Inr (350, 3)"
proof -
  let ?w = "quiet_world example_tree"
  have nf: "unreadable ?w = (\<lambda>q. False) \<and> scandir_fails ?w = (\<lambda>q. False)"
    "unreadable flat_dir_world = (\<lambda>q. False) \<and> scandir_fails flat_dir_world = (\<lambda>q. False)"
    by (simp_all add: quiet_world_def flat_dir_world_def unreadable_def fun_eq_iff)
  have h1: "\<not> path_exists ?w [''absent'']" by code_simp
  have h2: "lstat ?w [''note.txt''] = Some (File 7) \<and> \<not> getsize_fails ?w [''note.txt'']"
    by code_simp
  have h3: "stat ?w [''tmp''] = Some example_tmp \<and> wf_node example_tmp" by code_simp
  have v3: "regular_files example_tmp = [10, 20, 5]" by code_simp
  have e3: "example_tmp = Dir [(''a.log'', File 10), (''b.log'', File 20),
          (''sub'', Dir [(''c.bin'', File 5), (''up'', Link (Some (Dir [])))]),
          (''latest'', Link (Some (File 10))), (''gone'', Link None)]"
    by (simp add: example_tmp_def)
  have h4: "stat flat_dir_world [''cache''] =
      Some (Dir (map (\<lambda>x. (fst x, File (snd x))) [(''f1'', 100), (''f2'', 250), (''f3'', 0)] @
            map (\<lambda>x. (fst x, Link (snd x))) [(''l1'', Some (File 100)), (''l2'', None)]))"
    by (simp add: flat_dir_world_def quiet_world_def stat_def lstat_def)
  have d4: "distinct (map fst [(''f1'', 100::nat), (''f2'', 250), (''f3'', 0)] @
      map fst [(''l1'', Some (File 100)), (''l2'', None)])"
    by simp
  note t1 = scan_directory_safely_three_cases [of ?w "[''absent'']"]
  note t2 = scan_directory_safely_three_cases [of ?w "[''note.txt'']" 7]
  note t3 = scan_directory_safely_three_cases [of ?w "[''tmp'']" _
      "[(''a.log'', File 10), (''b.log'', File 20),
          (''sub'', Dir [(''c.bin'', File 5), (''up'', Link (Some (Dir [])))]),
          (''latest'', Link (Some (File 10))), (''gone'', Link None)]"]
  note t4 = scan_directory_safely_three_cases [of flat_dir_world "[''cache'']" _ _
      "[(''f1'', 100), (''f2'', 250), (''f3'', 0)]" "[(''l1'', Some (File 100)), (''l2'', None)]"]
  have c1: "scan_directory_safely ?w [''absent''] = Inr (0, 0)"
    using t1 h1 by blast
  have c2: "scan_directory_safely ?w [''note.txt''] = Inr (7, 1)"
    using t2 h2 by simp
  have c3: "scan_directory_safely ?w [''tmp''] = Inr (35, 3)"
    using t3 h3 v3 nf(1) unfolding e3 [symmetric] by simp
  have c4: "scan_directory_safely flat_dir_world [''cache''] = Inr (350, 3)"
    using t4 h4 d4 nf(2) by simp
  show ?thesis
    using h1 c1 h2 c2 h3 v3 c3 c4 by simp
qed

text \<open>
  Claim C10. A path that is itself a symbolic link to a regular file of size \<open>n\<close> gives
  \<open>(n, 1)\<close>: the path argument is classified by following links. The exclusion of links
  is for the entries met while walking a directory: such an entry leaves the accumulators
  as they were.
\<close>

theorem scan_directory_safely_root_link:
  "(lstat w p = Some (Link t) \<and> follow (Link t) = Some (File n) \<and> \<not> getsize_fails w p \<longrightarrow>
      scan_directory_safely w p = Inr (int n, 1)) \<and>
   (lstat w (r @ [f]) = Some (Link t) \<longrightarrow> scan_file w r a f = Inr a)"
proof (intro conjI impI)
  assume a: "lstat w p = Some (Link t) \<and> follow (Link t) = Some (File n) \<and> \<not> getsize_fails w p"
  then have "\<not> stat_fails w p"
    by (auto simp: lstat_def split: if_splits)
  then have "stat w p = Some (File n)" "wf_node (File n)" "\<not> unreadable w p"
    using a by (simp_all add: stat_def unreadable_def)
  then show "scan_directory_safely w p = Inr (int n, 1)"
    by (simp add: scan_directory_safely_accounts)
next
  assume "lstat w (r @ [f]) = Some (Link t)"
  then show "scan_file w r a f = Inr a"
    by (simp add: scan_file_def Let_def path_islink_def)
qed

theorem scan_directory_safely_root_link_witness:
  "lstat (quiet_world example_tree) [''shortcut''] = Some (Link (Some (File 7))) \<and>
   scan_directory_safely (quiet_world example_tree) [''shortcut''] = Inr (7, 1) \<and>
   lstat (quiet_world example_tree) [''tmp'', ''latest''] = Some (Link (Some (File 10))) \<and>
   scan_file (quiet_world example_tree) [''tmp''] (30, 2) ''latest'' = Inr (30, 2) \<and>
   scan_directory_safely (quiet_world example_tree) [''tmp'', ''latest''] = Inr (10, 1)"
proof -
  let ?w = "quiet_world example_tree"
  have h1: "lstat ?w [''shortcut''] = Some (Link (Some (File 7))) \<and>
      follow (Link (Some (File 7))) = Some (File 7) \<and> \<not> getsize_fails ?w [''shortcut'']"
    by code_simp
  have h2: "lstat ?w ([''tmp''] @ [''latest'']) = Some (Link (Some (File 10)))"
    by code_simp
  have h3: "lstat ?w [''tmp'', ''latest''] = Some (Link (Some (File 10))) \<and>
      follow (Link (Some (File 10))) = Some (File 10) \<and>
      \<not> getsize_fails ?w [''tmp'', ''latest'']"
    by code_simp
  note t1 = scan_directory_safely_root_link [of ?w "[''shortcut'']" "Some (File 7)" 7]
  note t2 = scan_directory_safely_root_link
    [of ?w _ "Some (File 10)" _ "[''tmp'']" "''latest''" "(30, 2)"]
  note t3 = scan_directory_safely_root_link [of ?w "[''tmp'', ''latest'']" "Some (File 10)" 10]
  have c1: "scan_directory_safely ?w [''shortcut''] = Inr (7, 1)"
    using t1 h1 by simp
  have c2: "scan_file ?w [''tmp''] (30, 2) ''latest'' = Inr (30, 2)"
    using t2 h2 by blast
  have c3: "scan_directory_safely ?w [''tmp'', ''latest''] = Inr (10, 1)"
    using t3 h3 by simp
  show ?thesis
    using h1 h3 c1 c2 c3 by simp
qed

section \<open>The claims about the cleaner\<close>

lemma follow_on_dir: "follow n = Some (Dir es) \<Longrightarrow> follow (on_dir g n) = Some (Dir (g es))"
  by (induction n rule: follow.induct) auto

lemma on_dir_not_dir: "follow n = None \<or> follow n = Some (File k) \<Longrightarrow> on_dir g n = n"
  by (induction n rule: follow.induct) auto

lemma distinct_names_follow: "distinct_names n \<Longrightarrow> follow n = Some d \<Longrightarrow> distinct_names d"
  by (induction n rule: follow.induct) auto

lemma map_of_upd_entry_other: "d \<noteq> c \<Longrightarrow> map_of (upd_entry c g es) d = map_of es d"
  by (induction es) (auto split: option.splits)

lemma upd_entry_absent: "map_of es c = None \<Longrightarrow> upd_entry c g es = es"
  by (induction es) (auto split: if_splits)

lemma map_of_upd_entry_replaced:
  "map_of es c = Some ch \<Longrightarrow> g ch = Some ch' \<Longrightarrow> map_of (upd_entry c g es) c = Some ch'"
  by (induction es) (auto split: if_splits)

lemma map_of_upd_entry_removed:
  "distinct (map fst es) \<Longrightarrow> map_of es c = Some ch \<Longrightarrow> g ch = None \<Longrightarrow>
   map_of (upd_entry c g es) c = None"
proof (induction es)
  case Nil
  then show ?case by simp
next
  case (Cons e es)
  show ?case
  proof (cases "fst e = c")
    case True
    then have "c \<notin> fst ` set es"
      using Cons.prems(1) by auto
    then have "map_of es c = None"
      by (simp add: map_of_eq_None_iff)
    moreover have "snd e = ch"
      using True Cons.prems(2) by (cases e) simp
    ultimately show ?thesis
      using True Cons.prems(3) by simp
  next
    case False
    then show ?thesis
      using Cons by (cases e) auto
  qed
qed

lemma map_of_upd_entry_same:
  "distinct (map fst es) \<Longrightarrow> map_of es c = Some ch \<Longrightarrow> map_of (upd_entry c g es) c = g ch"
  by (cases "g ch") (simp_all add: map_of_upd_entry_removed map_of_upd_entry_replaced)

lemma modify_Cons_Some: "modify f (c # cs) n = Some (on_dir (upd_entry c (modify f cs)) n)"
  by simp

lemma lookup_modify_same:
  "distinct_names n \<Longrightarrow> lookup n p = Some m \<Longrightarrow> p \<noteq> [] \<Longrightarrow>
   \<exists>n'. modify f p n = Some n' \<and> lookup n' p = f m"
proof (induction p arbitrary: n)
  case Nil
  then show ?case by simp
next
  case (Cons c cs)
  from Cons.prems(2) obtain es ch where fo: "follow n = Some (Dir es)"
    and mo: "map_of es c = Some ch" and lk: "lookup ch cs = Some m"
    by (auto split: option.splits node.splits)
  have dn: "distinct_names (Dir es)"
    using distinct_names_follow [OF Cons.prems(1) fo] .
  then have dist: "distinct (map fst es)"
    by simp
  have "(c, ch) \<in> set es"
    using mo by (rule map_of_SomeD)
  then have dch: "distinct_names ch"
    using dn by auto
  let ?g = "modify f cs"
  let ?n' = "on_dir (upd_entry c ?g) n"
  have fo': "follow ?n' = Some (Dir (upd_entry c ?g es))"
    using fo by (rule follow_on_dir)
  have mo': "map_of (upd_entry c ?g es) c = ?g ch"
    using dist mo by (rule map_of_upd_entry_same)
  have "lookup ?n' (c # cs) = f m"
  proof (cases "cs = []")
    case True
    then have "?g ch = f m"
      using lk by simp
    then show ?thesis
      using fo' mo' True by (simp split: option.splits)
  next
    case False
    then obtain ch' where "?g ch = Some ch'" and "lookup ch' cs = f m"
      using Cons.IH [OF dch lk] by blast
    then show ?thesis
      using fo' mo' by simp
  qed
  then show ?case
    by simp
qed

lemma lookup_modify_frame:
  "diverge p q \<Longrightarrow> modify f p n = Some n' \<Longrightarrow> lookup n' q = lookup n q"
proof (induction p q arbitrary: n n' rule: diverge.induct)
  case (1 q)
  then show ?case by simp
next
  case (2 c cs)
  then show ?case by simp
next
  case (3 c cs d ds)
  let ?g = "modify f cs"
  have n': "n' = on_dir (upd_entry c ?g) n"
    using "3.prems"(2) by simp
  show ?case
  proof (cases "\<exists>es. follow n = Some (Dir es)")
    case False
    have "follow n = None \<or> (\<exists>k. follow n = Some (File k))"
    proof (cases "follow n")
      case None
      then show ?thesis by simp
    next
      case (Some a)
      then show ?thesis
        using False follow_not_Link [of n] by (cases a) auto
    qed
    then have "n' = n"
      unfolding n' using on_dir_not_dir by blast
    then show ?thesis by simp
  next
    case True
    then obtain es where fo: "follow n = Some (Dir es)"
      by blast
    have fo': "follow n' = Some (Dir (upd_entry c ?g es))"
      unfolding n' using fo by (rule follow_on_dir)
    show ?thesis
    proof (cases "c = d")
      case False
      then have "map_of (upd_entry c ?g es) d = map_of es d"
        by (simp add: map_of_upd_entry_other)
      then show ?thesis
        using fo fo' by simp
    next
      case cd: True
      then have dv: "diverge cs ds"
        using "3.prems"(1) by simp
      then have ne: "cs \<noteq> []"
        by (cases cs) simp_all
      show ?thesis
      proof (cases "map_of es c")
        case None
        then have "upd_entry c ?g es = es"
          by (rule upd_entry_absent)
        then show ?thesis
          using fo fo' by simp
      next
        case (Some ch)
        obtain x xs where cs: "cs = x # xs"
          using ne by (cases cs) auto
        then obtain ch' where g: "?g ch = Some ch'"
          by simp
        have "lookup ch' ds = lookup ch ds"
          using "3.IH" [OF cd dv g] .
        moreover have "map_of (upd_entry c ?g es) c = Some ch'"
          using Some g by (rule map_of_upd_entry_replaced)
        ultimately show ?thesis
          using fo fo' Some cd by simp
      qed
    qed
  qed
qed

lemma rmtree_fully:
  "(fully_deletable df sf p n \<longrightarrow> rmtree_node df sf p n = None)"
  and rmtree_entries_fully:
  "(entries_deletable df sf p es \<longrightarrow> rmtree_entries df sf p es = [])"
  by (induction df sf p n and df sf p es rule: rmtree_node_rmtree_entries.induct)
    (auto simp: Let_def)

lemma rmtree_entries_keeps_refused:
  "distinct (map fst es) \<Longrightarrow> e \<in> set es \<Longrightarrow> df (p @ [fst e]) \<Longrightarrow> \<forall>es'. snd e \<noteq> Dir es' \<Longrightarrow>
   map_of (rmtree_entries df sf p es) (fst e) = Some (snd e)"
proof (induction es)
  case Nil
  then show ?case by simp
next
  case (Cons a es)
  show ?case
  proof (cases "a = e")
    case True
    have "rmtree_node df sf (p @ [fst e]) (snd e) = Some (snd e)"
      using Cons.prems(3,4) by (cases "snd e") simp_all
    then show ?thesis
      using True by simp
  next
    case False
    then have mem: "e \<in> set es"
      using Cons.prems(2) by simp
    then have "fst a \<noteq> fst e"
      using Cons.prems(1) by (metis distinct.simps(2) image_eqI list.simps(9) set_map)
    moreover have "map_of (rmtree_entries df sf p es) (fst e) = Some (snd e)"
      using Cons.IH Cons.prems mem by simp
    ultimately show ?thesis
      by (simp split: option.splits)
  qed
qed

lemma distinct_names_lookup: "distinct_names n \<Longrightarrow> lookup n p = Some m \<Longrightarrow> distinct_names m"
proof (induction n p rule: lookup.induct)
  case (1 n)
  then show ?case by simp
next
  case (2 n c cs)
  from "2.prems"(2) obtain es ch where fo: "follow n = Some (Dir es)"
    and mo: "map_of es c = Some ch" and lk: "lookup ch cs = Some m"
    by (auto split: option.splits node.splits)
  have "distinct_names (Dir es)"
    using distinct_names_follow [OF "2.prems"(1) fo] .
  moreover have "(c, ch) \<in> set es"
    using mo by (rule map_of_SomeD)
  ultimately have "distinct_names ch"
    by auto
  then show ?case
    using "2.IH" fo mo lk by simp
qed

lemma modified_state:
  assumes "distinct_names (fs_root w)" "lookup (fs_root w) p = Some m" "p \<noteq> []"
  shows "lookup (modify_root f p (fs_root w)) p = f m"
    and "diverge p q \<Longrightarrow> lookup (modify_root f p (fs_root w)) q = lookup (fs_root w) q"
proof -
  obtain n' where n': "modify f p (fs_root w) = Some n'" and l: "lookup n' p = f m"
    using lookup_modify_same [OF assms] by blast
  show "lookup (modify_root f p (fs_root w)) p = f m"
    using n' l by (simp add: modify_root_def)
  show "lookup (modify_root f p (fs_root w)) q = lookup (fs_root w) q" if "diverge p q"
    using lookup_modify_frame [OF that n'] n' by (simp add: modify_root_def)
qed

lemma lstat_fs_root_update [simp]:
  "lstat (w\<lparr>fs_root := r\<rparr>) q = (if stat_fails w q then None else lookup r q)"
  by (simp add: lstat_def)

lemma scan_absent: "lstat w p = None \<Longrightarrow> scan_directory_safely w p = Inr (0, 0)"
  by (simp add: scan_directory_safely_def scan_try_def path_exists_def stat_def)

lemma path_getsize_nonneg: "path_getsize w p = Inr sz \<Longrightarrow> 0 \<le> sz"
  by (auto simp: path_getsize_def split: if_splits option.splits node.splits)

lemma scan_file_nonneg:
  "scan_file w r a f = Inr a' \<Longrightarrow> 0 \<le> fst a \<and> 0 \<le> snd a \<Longrightarrow> 0 \<le> fst a' \<and> 0 \<le> snd a'"
  by (auto simp: scan_file_def Let_def split: if_splits sum.splits dest: path_getsize_nonneg)

lemma scan_files_nonneg:
  "scan_files w r a fs = Inr a' \<Longrightarrow> 0 \<le> fst a \<and> 0 \<le> snd a \<Longrightarrow> 0 \<le> fst a' \<and> 0 \<le> snd a'"
proof (induction fs arbitrary: a)
  case Nil
  then show ?case by simp
next
  case (Cons f fs)
  from Cons.prems(1) obtain a1 where a1: "scan_file w r a f = Inr a1"
    and r: "scan_files w r a1 fs = Inr a'"
    by (auto split: sum.splits)
  have "0 \<le> fst a1 \<and> 0 \<le> snd a1"
    using scan_file_nonneg [OF a1 Cons.prems(2)] .
  then show ?case
    using Cons.IH [OF r] by blast
qed

lemma scan_walk_nonneg:
  "scan_walk w a ts = Inr a' \<Longrightarrow> 0 \<le> fst a \<and> 0 \<le> snd a \<Longrightarrow> 0 \<le> fst a' \<and> 0 \<le> snd a'"
proof (induction ts arbitrary: a)
  case Nil
  then show ?case by simp
next
  case (Cons t ts)
  from Cons.prems(1) obtain a1 where a1: "scan_files w (fst t) a (snd (snd t)) = Inr a1"
    and r: "scan_walk w a1 ts = Inr a'"
    by (auto split: sum.splits)
  have "0 \<le> fst a1 \<and> 0 \<le> snd a1"
    using scan_files_nonneg [OF a1 Cons.prems(2)] .
  then show ?case
    using Cons.IH [OF r] by blast
qed

lemma scan_directory_safely_nonneg:
  assumes "scan_directory_safely w p = Inr (s, c)"
  shows "0 \<le> s \<and> 0 \<le> c"
proof -
  have "scan_try w p = Inr (s, c) \<or> (s, c) = (0, 0)"
    using assms scan_try_cases [of w p]
    by (auto simp: scan_directory_safely_def split: sum.splits if_splits)
  then show ?thesis
  proof
    assume t: "scan_try w p = Inr (s, c)"
    show ?thesis
    proof (cases "\<not> path_exists w p")
      case True
      then show ?thesis using t by (simp add: scan_try_def)
    next
      case ex: False
      show ?thesis
      proof (cases "path_isfile w p")
        case True
        then show ?thesis
          using t ex by (auto simp: scan_try_def split: sum.splits dest: path_getsize_nonneg)
      next
        case False
        then have "scan_walk w (0, 0) (os_walk w p) = Inr (s, c)"
          using t ex by (simp add: scan_try_def)
        then show ?thesis
          using scan_walk_nonneg [of w "(0, 0)" "os_walk w p" "(s, c)"] by simp
      qed
    qed
  next
    assume "(s, c) = (0, 0)"
    then show ?thesis by simp
  qed
qed

lemma clean_attempts:
  assumes "path_exists w p" "scan_directory_safely w p = Inr (s, c)" "c \<noteq> 0"
  shows "snd (clean_directory_safely env w p) = env 2 (try_delete env (env 0 w) p)"
    and "scan_directory_safely (env 2 (try_delete env (env 0 w) p)) p = Inr (s', c') \<Longrightarrow>
      fst (clean_directory_safely env w p) = Inr (max 0 (c - c'), max 0 (s - s'))"
  using assms by (simp_all add: clean_directory_safely_def Let_def split: sum.splits)

lemma clean_file_removed:
  assumes "stat w p = Some (File n)" "p \<noteq> []" "\<not> getsize_fails w p" "\<not> delete_fails w p"
    "distinct_names (fs_root w)"
  shows "fst (clean_directory_safely no_interference w p) = Inr (1, int n)"
    and "lstat (snd (clean_directory_safely no_interference w p)) p = None"
    and "diverge p q \<Longrightarrow>
      lstat (snd (clean_directory_safely no_interference w p)) q = lstat w q"
proof -
  obtain m where l: "lstat w p = Some m" and fm: "follow m = Some (File n)"
    using assms(1) by (auto simp: stat_def split: option.splits)
  have nsf: "\<not> stat_fails w p" and lk: "lookup (fs_root w) p = Some m"
    using l by (auto simp: lstat_def split: if_splits)
  let ?w1 = "w\<lparr>fs_root := modify_root (\<lambda>n. None) p (fs_root w)\<rparr>"
  have rm: "os_remove w p = Inr ?w1"
  proof (cases m)
    case (File k)
    then show ?thesis using l assms(2,4) by (simp add: os_remove_def)
  next
    case (Link t)
    then show ?thesis using l assms(2,4) by (simp add: os_remove_def)
  next
    case (Dir es)
    then show ?thesis using fm by simp
  qed
  have td: "try_delete no_interference (no_interference 0 w) p = ?w1"
    using rm assms(1) by (simp add: try_delete_def no_interference_def path_isfile_def)
  have sc: "scan_directory_safely w p = Inr (int n, 1)"
    using scan_directory_safely_accounts [OF assms(1)] nsf assms(3)
    by (simp add: unreadable_def)
  have ex: "path_exists w p"
    using assms(1) by (simp add: path_exists_def)
  have st: "snd (clean_directory_safely no_interference w p) = ?w1"
    using clean_attempts(1) [OF ex sc, of no_interference] td
    by (simp add: no_interference_def)
  have gone: "lstat ?w1 p = None"
    using modified_state(1) [OF assms(5) lk assms(2), of "\<lambda>n. None"] by simp
  show "lstat (snd (clean_directory_safely no_interference w p)) p = None"
    using st gone by simp
  have "scan_directory_safely (no_interference 2 (try_delete no_interference
      (no_interference 0 w) p)) p = Inr (0, 0)"
    using td gone by (simp add: no_interference_def scan_absent)
  then show "fst (clean_directory_safely no_interference w p) = Inr (1, int n)"
    using clean_attempts(2) [OF ex sc, of no_interference 0 0] by simp
  show "lstat (snd (clean_directory_safely no_interference w p)) q = lstat w q"
    if "diverge p q"
    using st modified_state(2) [OF assms(5) lk assms(2) that, of "\<lambda>n. None"]
    by (simp add: lstat_def)
qed

lemma clean_directory_removed:
  assumes "lstat w p = Some (Dir es)" "p \<noteq> []"
    "fully_deletable (delete_fails w) (scandir_fails w) p (Dir es)"
    "distinct_names (fs_root w)" "scan_directory_safely w p = Inr (s, c)" "c \<noteq> 0"
  shows "fst (clean_directory_safely no_interference w p) = Inr (c, s)"
    and "lstat (snd (clean_directory_safely no_interference w p)) p = None"
    and "diverge p q \<Longrightarrow>
      lstat (snd (clean_directory_safely no_interference w p)) q = lstat w q"
proof -
  have nsf: "\<not> stat_fails w p" and lk: "lookup (fs_root w) p = Some (Dir es)"
    using assms(1) by (auto simp: lstat_def split: if_splits)
  have st0: "stat w p = Some (Dir es)"
    using assms(1) by (simp add: stat_def)
  let ?f = "rmtree_node (delete_fails w) (scandir_fails w) p"
  let ?w1 = "w\<lparr>fs_root := modify_root ?f p (fs_root w)\<rparr>"
  have f: "?f (Dir es) = None"
    using rmtree_fully assms(3) by blast
  have td: "try_delete no_interference (no_interference 0 w) p = ?w1"
    using assms(1) st0
    by (simp add: try_delete_def no_interference_def path_isfile_def path_isdir_def
        shutil_rmtree_def)
  have ex: "path_exists w p"
    using st0 by (simp add: path_exists_def)
  have st: "snd (clean_directory_safely no_interference w p) = ?w1"
    using clean_attempts(1) [OF ex assms(5,6), of no_interference] td
    by (simp add: no_interference_def)
  have gone: "lstat ?w1 p = None"
    using modified_state(1) [OF assms(4) lk assms(2), of ?f] f by simp
  show "lstat (snd (clean_directory_safely no_interference w p)) p = None"
    using st gone by simp
  have "scan_directory_safely (no_interference 2 (try_delete no_interference
      (no_interference 0 w) p)) p = Inr (0, 0)"
    using td gone by (simp add: no_interference_def scan_absent)
  moreover have "0 \<le> c \<and> 0 \<le> s"
    using scan_directory_safely_nonneg [OF assms(5)] by simp
  ultimately show "fst (clean_directory_safely no_interference w p) = Inr (c, s)"
    using clean_attempts(2) [OF ex assms(5,6), of no_interference 0 0] by simp
  show "lstat (snd (clean_directory_safely no_interference w p)) q = lstat w q"
    if "diverge p q"
    using st modified_state(2) [OF assms(4) lk assms(2) that, of ?f]
    by (simp add: lstat_def)
qed

lemma clean_unchanged:
  assumes "try_delete no_interference w p = w"
  shows "clean_directory_safely no_interference w p = (Inr (0, 0), w)"
proof -
  obtain b where b: "scan_directory_safely w p = Inr b"
    using scan_directory_safely_total by blast
  show ?thesis
    using assms b by (simp add: clean_directory_safely_def no_interference_def Let_def)
qed

lemma clean_file_refused:
  assumes "stat w p = Some (File n)" "delete_fails w p"
  shows "clean_directory_safely no_interference w p = (Inr (0, 0), w)"
proof -
  obtain m where l: "lstat w p = Some m" and fm: "follow m = Some (File n)"
    using assms(1) by (auto simp: stat_def split: option.splits)
  have "os_remove w p = Inl PermissionError"
  proof (cases m)
    case (File k)
    then show ?thesis using l assms(2) by (simp add: os_remove_def)
  next
    case (Link t)
    then show ?thesis using l assms(2) by (simp add: os_remove_def)
  next
    case (Dir es)
    then show ?thesis using fm by simp
  qed
  then have "try_delete no_interference w p = w"
    using assms(1) by (simp add: try_delete_def no_interference_def path_isfile_def)
  then show ?thesis
    by (rule clean_unchanged)
qed

lemma clean_link_to_directory:
  assumes "lstat w p = Some (Link t)" "path_isdir w p"
  shows "clean_directory_safely no_interference w p = (Inr (0, 0), w)"
proof -
  have "\<not> path_isfile w p"
    using assms(2) by (auto simp: path_isdir_def path_isfile_def split: option.splits node.splits)
  then have "try_delete no_interference w p = w"
    using assms by (simp add: try_delete_def no_interference_def shutil_rmtree_def)
  then show ?thesis
    by (rule clean_unchanged)
qed

lemma clean_refused_entry_survives:
  assumes "lstat w p = Some (Dir es)" "p \<noteq> []" "distinct_names (fs_root w)"
    "e \<in> set es" "\<forall>es'. snd e \<noteq> Dir es'" "delete_fails w (p @ [fst e])"
    "scan_directory_safely w p = Inr (s, c)" "c \<noteq> 0"
  shows "lookup (fs_root (snd (clean_directory_safely no_interference w p))) (p @ [fst e]) =
    Some (snd e)"
proof -
  have lk: "lookup (fs_root w) p = Some (Dir es)"
    using assms(1) by (auto simp: lstat_def split: if_splits)
  have st0: "stat w p = Some (Dir es)"
    using assms(1) by (simp add: stat_def)
  have "distinct_names (Dir es)"
    using distinct_names_lookup [OF assms(3) lk] .
  then have dist: "distinct (map fst es)"
    by simp
  let ?df = "delete_fails w" and ?sf = "scandir_fails w"
  let ?f = "rmtree_node ?df ?sf p"
  let ?es' = "if ?sf p then es else rmtree_entries ?df ?sf p es"
  have m0: "map_of es (fst e) = Some (snd e)"
    using dist assms(4) by (cases e) simp
  have m1: "map_of ?es' (fst e) = Some (snd e)"
    using m0 rmtree_entries_keeps_refused [of es e "delete_fails w" p "scandir_fails w"]
      dist assms(4,5,6)
    by simp
  then have "?es' \<noteq> []"
    by auto
  then have f: "?f (Dir es) = Some (Dir ?es')"
    by (simp add: Let_def)
  let ?w1 = "w\<lparr>fs_root := modify_root ?f p (fs_root w)\<rparr>"
  have td: "try_delete no_interference (no_interference 0 w) p = ?w1"
    using assms(1) st0
    by (simp add: try_delete_def no_interference_def path_isfile_def path_isdir_def
        shutil_rmtree_def)
  have ex: "path_exists w p"
    using st0 by (simp add: path_exists_def)
  have st: "snd (clean_directory_safely no_interference w p) = ?w1"
    using clean_attempts(1) [OF ex assms(7,8), of no_interference] td
    by (simp add: no_interference_def)
  have "lookup (modify_root ?f p (fs_root w)) p = Some (Dir ?es')"
    using modified_state(1) [OF assms(3) lk assms(2), of ?f] f by simp
  then have "lookup (modify_root ?f p (fs_root w)) (p @ [fst e]) = Some (snd e)"
    using m1 by (simp add: lookup_append)
  then show ?thesis
    using st by simp
qed

text \<open>
  Claim C1. Whatever other processes do between the two measurements,
  \<open>clean_directory_safely\<close> returns the clamped difference of the measurement of the
  path before the call and the measurement of the same path in the state it leaves:
  \<open>(max 0 (count before - count after), max 0 (bytes before - bytes after))\<close>; so
  neither field is negative. (Where the function returns early, it leaves the state as
  it found it, and the difference is \<open>(0, 0)\<close>.) When the first measurement counts a
  file, the state it leaves is the one of the deletion attempt. Without interference: a
  file, or a directory nothing of which is refused, is gone afterwards, every path that
  parts from the target is as it was, and the result is the first measurement; a file
  whose deletion is refused stays, with result \<open>(0, 0)\<close>; an entry of the directory whose
  deletion is refused stays; a link to a directory is left alone, with result \<open>(0, 0)\<close>.
\<close>

theorem clean_directory_safely_clamped:
  "(\<exists>before after.
     scan_directory_safely w p = Inr before \<and>
     scan_directory_safely (snd (clean_directory_safely env w p)) p = Inr after \<and>
     fst (clean_directory_safely env w p) =
       Inr (max 0 (snd before - snd after), max 0 (fst before - fst after)) \<and>
     (\<exists>deleted freed. fst (clean_directory_safely env w p) = Inr (deleted, freed) \<and>
        0 \<le> deleted \<and> 0 \<le> freed)) \<and>
   (path_exists w p \<and> scan_directory_safely w p = Inr (s, c) \<and> c \<noteq> 0 \<longrightarrow>
      snd (clean_directory_safely env w p) = env 2 (try_delete env (env 0 w) p)) \<and>
   (stat w p = Some (File n) \<and> p \<noteq> [] \<and> \<not> getsize_fails w p \<and> \<not> delete_fails w p \<and>
    distinct_names (fs_root w) \<longrightarrow>
      fst (clean_directory_safely no_interference w p) = Inr (1, int n) \<and>
      lstat (snd (clean_directory_safely no_interference w p)) p = None \<and>
      (\<forall>q. diverge p q \<longrightarrow>
         lstat (snd (clean_directory_safely no_interference w p)) q = lstat w q)) \<and>
   (lstat w p = Some (Dir es) \<and> p \<noteq> [] \<and>
    fully_deletable (delete_fails w) (scandir_fails w) p (Dir es) \<and>
    distinct_names (fs_root w) \<and> scan_directory_safely w p = Inr (s, c) \<and> c \<noteq> 0 \<longrightarrow>
      fst (clean_directory_safely no_interference w p) = Inr (c, s) \<and>
      lstat (snd (clean_directory_safely no_interference w p)) p = None \<and>
      (\<forall>q. diverge p q \<longrightarrow>
         lstat (snd (clean_directory_safely no_interference w p)) q = lstat w q)) \<and>
   (stat w p = Some (File n) \<and> delete_fails w p \<longrightarrow>
      clean_directory_safely no_interference w p = (Inr (0, 0), w)) \<and>
   (lstat w p = Some (Dir es) \<and> p \<noteq> [] \<and> distinct_names (fs_root w) \<and> e \<in> set es \<and>
    (\<forall>es'. snd e \<noteq> Dir es') \<and> delete_fails w (p @ [fst e]) \<and>
    scan_directory_safely w p = Inr (s, c) \<and> c \<noteq> 0 \<longrightarrow>
      lookup (fs_root (snd (clean_directory_safely no_interference w p))) (p @ [fst e]) =
        Some (snd e)) \<and>
   (lstat w p = Some (Link t) \<and> path_isdir w p \<longrightarrow>
      clean_directory_safely no_interference w p = (Inr (0, 0), w))"
proof -
  have c1: "\<exists>before after.
     scan_directory_safely w p = Inr before \<and>
     scan_directory_safely (snd (clean_directory_safely env w p)) p = Inr after \<and>
     fst (clean_directory_safely env w p) =
       Inr (max 0 (snd before - snd after), max 0 (fst before - fst after)) \<and>
     (\<exists>deleted freed. fst (clean_directory_safely env w p) = Inr (deleted, freed) \<and>
        0 \<le> deleted \<and> 0 \<le> freed)"
  proof -
    obtain before where b: "scan_directory_safely w p = Inr before"
      using scan_directory_safely_total by blast
    show ?thesis
    proof (cases "\<not> path_exists w p \<or> snd before = 0")
      case True
      then have "clean_directory_safely env w p = (Inr (0, 0), w)"
        using b by (auto simp: clean_directory_safely_def)
      then show ?thesis using b by simp
    next
      case False
      define w' where "w' = env 2 (try_delete env (env 0 w) p)"
      obtain after where a: "scan_directory_safely w' p = Inr after"
        using scan_directory_safely_total by blast
      have "clean_directory_safely env w p =
          (Inr (max 0 (snd before - snd after), max 0 (fst before - fst after)), w')"
        using False b a by (simp add: clean_directory_safely_def w'_def Let_def)
      then show ?thesis using b a by simp
    qed
  qed
  have c2: "path_exists w p \<and> scan_directory_safely w p = Inr (s, c) \<and> c \<noteq> 0 \<longrightarrow>
      snd (clean_directory_safely env w p) = env 2 (try_delete env (env 0 w) p)"
    using clean_attempts(1) by blast
  have c3: "stat w p = Some (File n) \<and> p \<noteq> [] \<and> \<not> getsize_fails w p \<and> \<not> delete_fails w p \<and>
    distinct_names (fs_root w) \<longrightarrow>
      fst (clean_directory_safely no_interference w p) = Inr (1, int n) \<and>
      lstat (snd (clean_directory_safely no_interference w p)) p = None \<and>
      (\<forall>q. diverge p q \<longrightarrow>
         lstat (snd (clean_directory_safely no_interference w p)) q = lstat w q)"
    using clean_file_removed by blast
  have c4: "lstat w p = Some (Dir es) \<and> p \<noteq> [] \<and>
    fully_deletable (delete_fails w) (scandir_fails w) p (Dir es) \<and>
    distinct_names (fs_root w) \<and> scan_directory_safely w p = Inr (s, c) \<and> c \<noteq> 0 \<longrightarrow>
      fst (clean_directory_safely no_interference w p) = Inr (c, s) \<and>
      lstat (snd (clean_directory_safely no_interference w p)) p = None \<and>
      (\<forall>q. diverge p q \<longrightarrow>
         lstat (snd (clean_directory_safely no_interference w p)) q = lstat w q)"
    using clean_directory_removed by blast
  have c5: "stat w p = Some (File n) \<and> delete_fails w p \<longrightarrow>
      clean_directory_safely no_interference w p = (Inr (0, 0), w)"
    using clean_file_refused by blast
  have c6: "lstat w p = Some (Dir es) \<and> p \<noteq> [] \<and> distinct_names (fs_root w) \<and> e \<in> set es \<and>
    (\<forall>es'. snd e \<noteq> Dir es') \<and> delete_fails w (p @ [fst e]) \<and>
    scan_directory_safely w p = Inr (s, c) \<and> c \<noteq> 0 \<longrightarrow>
      lookup (fs_root (snd (clean_directory_safely no_interference w p))) (p @ [fst e]) =
        Some (snd e)"
    using clean_refused_entry_survives by blast
  have c7: "lstat w p = Some (Link t) \<and> path_isdir w p \<longrightarrow>
      clean_directory_safely no_interference w p = (Inr (0, 0), w)"
    using clean_link_to_directory by blast
  show ?thesis
    using c1 c2 c3 c4 c5 c6 c7 by (intro conjI)
qed

theorem clean_directory_safely_clamped_witness:
  "scan_directory_safely (quiet_world example_tree) [''tmp''] = Inr (35, 3) \<and>
   scan_directory_safely
     (snd (clean_directory_safely late_writer (quiet_world example_tree) [''tmp'']))
     [''tmp''] = Inr (1000, 1) \<and>
   fst (clean_directory_safely late_writer (quiet_world example_tree) [''tmp'']) = Inr (2, 0) \<and>
   snd (clean_directory_safely late_writer (quiet_world example_tree) [''tmp'']) =
     late_writer 2 (try_delete late_writer (late_writer 0 (quiet_world example_tree)) [''tmp'']) \<and>
   fst (clean_directory_safely no_interference (quiet_world example_tree) [''note.txt'']) =
     Inr (1, 7) \<and>
   lstat (snd (clean_directory_safely no_interference (quiet_world example_tree) [''note.txt'']))
     [''note.txt''] = None \<and>
   lstat (snd (clean_directory_safely no_interference (quiet_world example_tree) [''note.txt'']))
     [''tmp'', ''a.log''] = Some (File 10) \<and>
   fst (clean_directory_safely no_interference (quiet_world example_tree) [''tmp'']) =
     Inr (3, 35) \<and>
   lstat (snd (clean_directory_safely no_interference (quiet_world example_tree) [''tmp'']))
     [''tmp''] = None \<and>
   lstat (snd (clean_directory_safely no_interference (quiet_world example_tree) [''tmp'']))
     [''note.txt''] = Some (File 7) \<and>
   clean_directory_safely no_interference refusing_world [''note.txt''] =
     (Inr (0, 0), refusing_world) \<and>
   fst (clean_directory_safely no_interference refusing_world [''tmp'']) = Inr (2, 15) \<and>
   lookup (fs_root (snd (clean_directory_safely no_interference refusing_world [''tmp''])))
     [''tmp'', ''b.log''] = Some (File 20) \<and>
   scan_directory_safely linked_world [''alias''] = Inr (9, 1) \<and>
   clean_directory_safely no_interference linked_world [''alias''] = (Inr (0, 0), linked_world)"
proof -
  let ?w = "quiet_world example_tree"
  have b: "scan_directory_safely ?w [''tmp''] = Inr (35, 3)"
    by code_simp
  have a1: "scan_directory_safely (snd (clean_directory_safely late_writer ?w [''tmp'']))
      [''tmp''] = Inr (1000, 1)"
    by code_simp
  have c1: "fst (clean_directory_safely late_writer ?w [''tmp'']) = Inr (2, 0)"
    using clean_directory_safely_clamped [of ?w "[''tmp'']" late_writer] b a1 by auto
  have ex: "path_exists ?w [''tmp'']"
    by code_simp
  have c2: "snd (clean_directory_safely late_writer ?w [''tmp'']) =
      late_writer 2 (try_delete late_writer (late_writer 0 ?w) [''tmp''])"
    using clean_directory_safely_clamped [of ?w "[''tmp'']" late_writer 35 3, THEN conjunct2,
        THEN conjunct1] ex b
    by simp
  have dn: "distinct_names (fs_root ?w)"
    by code_simp
  have h3: "stat ?w [''note.txt''] = Some (File 7) \<and> [''note.txt''] \<noteq> [] \<and>
      \<not> getsize_fails ?w [''note.txt''] \<and> \<not> delete_fails ?w [''note.txt'']"
    by code_simp
  have t3: "fst (clean_directory_safely no_interference ?w [''note.txt'']) = Inr (1, int 7) \<and>
      lstat (snd (clean_directory_safely no_interference ?w [''note.txt''])) [''note.txt''] = None \<and>
      (\<forall>q. diverge [''note.txt''] q \<longrightarrow>
         lstat (snd (clean_directory_safely no_interference ?w [''note.txt''])) q = lstat ?w q)"
    using clean_directory_safely_clamped [of ?w "[''note.txt'']" _ _ _ 7, THEN conjunct2,
        THEN conjunct2, THEN conjunct1] h3 dn
    by blast
  have d3: "diverge [''note.txt''] [''tmp'', ''a.log'']"
    by simp
  have l3: "lstat ?w [''tmp'', ''a.log''] = Some (File 10)"
    by code_simp
  have c3: "fst (clean_directory_safely no_interference ?w [''note.txt'']) = Inr (1, 7) \<and>
      lstat (snd (clean_directory_safely no_interference ?w [''note.txt''])) [''note.txt''] = None \<and>
      lstat (snd (clean_directory_safely no_interference ?w [''note.txt''])) [''tmp'', ''a.log''] =
        Some (File 10)"
    using t3 d3 l3 by simp
  have e4: "example_tmp = Dir [(''a.log'', File 10), (''b.log'', File 20),
          (''sub'', Dir [(''c.bin'', File 5), (''up'', Link (Some (Dir [])))]),
          (''latest'', Link (Some (File 10))), (''gone'', Link None)]"
    by (simp add: example_tmp_def)
  have h4: "lstat ?w [''tmp''] = Some example_tmp \<and> [''tmp''] \<noteq> [] \<and>
      fully_deletable (delete_fails ?w) (scandir_fails ?w) [''tmp''] example_tmp"
    by code_simp
  have t4: "fst (clean_directory_safely no_interference ?w [''tmp'']) = Inr (3, 35) \<and>
      lstat (snd (clean_directory_safely no_interference ?w [''tmp''])) [''tmp''] = None \<and>
      (\<forall>q. diverge [''tmp''] q \<longrightarrow>
         lstat (snd (clean_directory_safely no_interference ?w [''tmp''])) q = lstat ?w q)"
    using clean_directory_safely_clamped [of ?w "[''tmp'']" _ 35 3 _
        "[(''a.log'', File 10), (''b.log'', File 20),
          (''sub'', Dir [(''c.bin'', File 5), (''up'', Link (Some (Dir [])))]),
          (''latest'', Link (Some (File 10))), (''gone'', Link None)]",
        THEN conjunct2, THEN conjunct2, THEN conjunct2, THEN conjunct1]
      h4 dn b
    unfolding e4 [symmetric] by simp
  have d4: "diverge [''tmp''] [''note.txt'']"
    by simp
  have l4: "lstat ?w [''note.txt''] = Some (File 7)"
    by code_simp
  have c4: "fst (clean_directory_safely no_interference ?w [''tmp'']) = Inr (3, 35) \<and>
      lstat (snd (clean_directory_safely no_interference ?w [''tmp''])) [''tmp''] = None \<and>
      lstat (snd (clean_directory_safely no_interference ?w [''tmp''])) [''note.txt''] =
        Some (File 7)"
    using t4 d4 l4 by simp
  have h5: "stat refusing_world [''note.txt''] = Some (File 7) \<and>
      delete_fails refusing_world [''note.txt'']"
    by code_simp
  have c5: "clean_directory_safely no_interference refusing_world [''note.txt''] =
      (Inr (0, 0), refusing_world)"
    using clean_directory_safely_clamped [of refusing_world "[''note.txt'']" _ _ _ 7] h5
    by blast
  have h6: "lstat refusing_world [''tmp''] = Some example_tmp \<and> [''tmp''] \<noteq> [] \<and>
      distinct_names (fs_root refusing_world) \<and>
      (''b.log'', File 20) \<in> set [(''a.log'', File 10), (''b.log'', File 20),
          (''sub'', Dir [(''c.bin'', File 5), (''up'', Link (Some (Dir [])))]),
          (''latest'', Link (Some (File 10))), (''gone'', Link None)] \<and>
      delete_fails refusing_world ([''tmp''] @ [fst (''b.log'', File 20)]) \<and>
      scan_directory_safely refusing_world [''tmp''] = Inr (35, 3)"
    by code_simp
  have n6: "\<forall>es'. snd (''b.log'', File 20) \<noteq> Dir es'"
    by simp
  have c6: "lookup (fs_root (snd (clean_directory_safely no_interference refusing_world [''tmp''])))
      [''tmp'', ''b.log''] = Some (File 20)"
    using clean_directory_safely_clamped [of refusing_world "[''tmp'']" _ 35 3 _
        "[(''a.log'', File 10), (''b.log'', File 20),
          (''sub'', Dir [(''c.bin'', File 5), (''up'', Link (Some (Dir [])))]),
          (''latest'', Link (Some (File 10))), (''gone'', Link None)]"
        "(''b.log'', File 20)"]
      h6 n6
    unfolding e4 [symmetric] by simp
  have v6: "fst (clean_directory_safely no_interference refusing_world [''tmp'']) = Inr (2, 15)"
    by code_simp
  have h7: "lstat linked_world [''alias''] = Some (Link (Some (Dir [(''f'', File 9)]))) \<and>
      path_isdir linked_world [''alias'']"
    by code_simp
  have v7: "scan_directory_safely linked_world [''alias''] = Inr (9, 1)"
    by code_simp
  have c7: "clean_directory_safely no_interference linked_world [''alias''] =
      (Inr (0, 0), linked_world)"
    using clean_directory_safely_clamped
      [of linked_world "[''alias'']" _ _ _ _ _ _ "Some (Dir [(''f'', File 9)])"] h7
    by blast
  show ?thesis
    using b a1 c1 c2 c3 c4 c5 v6 c6 v7 c7 by simp
qed

text \<open>
  Claim C4. When the measurement of the path before the call counts no file (the path
  does not exist, or it holds no regular file, as a directory of links only),
  \<open>clean_directory_safely\<close> returns \<open>(0, 0)\<close> and deletes nothing: the state is the one
  it was called in, and a path that was absent is still absent.
\<close>

theorem clean_directory_safely_zero_case:
  "(scan_directory_safely w p = Inr (s, 0) \<longrightarrow>
      clean_directory_safely env w p = (Inr (0, 0), w)) \<and>
   (\<not> path_exists w p \<longrightarrow>
      clean_directory_safely env w p = (Inr (0, 0), w) \<and>
      \<not> path_exists (snd (clean_directory_safely env w p)) p)"
  by (simp add: clean_directory_safely_def)

theorem clean_directory_safely_zero_case_witness:
  "scan_directory_safely (quiet_world example_tree) [''links''] = Inr (0, 0) \<and>
   path_exists (quiet_world example_tree) [''links''] \<and>
   clean_directory_safely late_writer (quiet_world example_tree) [''links''] =
     (Inr (0, 0), quiet_world example_tree) \<and>
   \<not> path_exists (quiet_world example_tree) [''absent''] \<and>
   clean_directory_safely late_writer (quiet_world example_tree) [''absent''] =
     (Inr (0, 0), quiet_world example_tree)"
proof -
  let ?w = "quiet_world example_tree"
  have h1: "scan_directory_safely ?w [''links''] = Inr (0, 0)" by code_simp
  have e1: "path_exists ?w [''links'']" by code_simp
  have h2: "\<not> path_exists ?w [''absent'']" by code_simp
  have c1: "clean_directory_safely late_writer ?w [''links''] = (Inr (0, 0), ?w)"
    using clean_directory_safely_zero_case [of ?w "[''links'']" 0 late_writer] h1 by blast
  have c2: "clean_directory_safely late_writer ?w [''absent''] = (Inr (0, 0), ?w)"
    using clean_directory_safely_zero_case [of ?w "[''absent'']" _ late_writer] h2 by blast
  show ?thesis
    using h1 e1 h2 c1 c2 by simp
qed

section \<open>The claims about profile roots and the registry sentinel\<close>

lemma scan_profiles_total:
  "scan_profiles w d a ps = Inr (acc_add a (profiles_total w d ps))"
proof (induction ps arbitrary: a)
  case Nil
  show ?case by (simp add: acc_add_def)
next
  case (Cons profile ps)
  obtain sc where s: "scan_directory_safely w (d @ [profile, ''cache2'']) = Inr sc"
    using scan_directory_safely_total by blast
  show ?case
    using s Cons.IH by (simp add: measured_def acc_add_def)
qed

lemma profiles_total_none:
  "(\<forall>profile. \<not> path_isdir w (d @ [profile, ''cache2''])) \<Longrightarrow> profiles_total w d ps = (0, 0)"
  by (induction ps) simp_all

lemma os_listdir_OSError: "os_listdir w d = Inl e \<Longrightarrow> is_OSError e"
  by (auto simp: os_listdir_def split: if_splits option.splits node.splits)

lemma scan_firefox_cache_listed:
  "os_listdir w d = Inr profiles \<Longrightarrow>
   scan_firefox_cache w d = Inr (profiles_total w d profiles)"
  by (auto simp: scan_firefox_cache_def scan_firefox_try_def scan_profiles_total
      os_listdir_def path_exists_def split: if_splits option.splits node.splits)

lemma scan_firefox_cache_unlisted:
  "os_listdir w d = Inl e \<Longrightarrow> scan_firefox_cache w d = Inr (0, 0)"
  by (auto simp: scan_firefox_cache_def scan_firefox_try_def dest: os_listdir_OSError)

text \<open>
  Claim C6. \<open>scan_firefox_cache\<close> never raises; it sums the measurement of the
  \<open>cache2\<close> subdirectory of every immediate child of the root that has one; an absent
  root gives \<open>(0, 0)\<close>, and so does a root none of whose children has the subdirectory.
  For a root with exactly three profiles, each with a cache subdirectory of two files of
  10 and 20 bytes, the result is \<open>(90, 6)\<close>.
\<close>

theorem scan_firefox_cache_sums_profiles:
  "(\<exists>a. scan_firefox_cache w d = Inr a) \<and>
   (\<not> path_exists w d \<longrightarrow> scan_firefox_cache w d = Inr (0, 0)) \<and>
   (os_listdir w d = Inr profiles \<longrightarrow>
      scan_firefox_cache w d = Inr (profiles_total w d profiles)) \<and>
   ((\<forall>profile. \<not> path_isdir w (d @ [profile, ''cache2''])) \<longrightarrow>
      scan_firefox_cache w d = Inr (0, 0)) \<and>
   scan_firefox_cache firefox_world [''Firefox'', ''Profiles''] = Inr (90, 6)"
proof (intro conjI impI)
  show "\<exists>a. scan_firefox_cache w d = Inr a"
    by (cases "os_listdir w d")
      (auto simp: scan_firefox_cache_listed scan_firefox_cache_unlisted)
next
  assume "\<not> path_exists w d"
  then show "scan_firefox_cache w d = Inr (0, 0)"
    by (simp add: scan_firefox_cache_def scan_firefox_try_def)
next
  assume "os_listdir w d = Inr profiles"
  then show "scan_firefox_cache w d = Inr (profiles_total w d profiles)"
    by (rule scan_firefox_cache_listed)
next
  assume "\<forall>profile. \<not> path_isdir w (d @ [profile, ''cache2''])"
  then show "scan_firefox_cache w d = Inr (0, 0)"
    by (cases "os_listdir w d")
      (auto simp: scan_firefox_cache_listed scan_firefox_cache_unlisted profiles_total_none)
next
  show "scan_firefox_cache firefox_world [''Firefox'', ''Profiles''] = Inr (90, 6)"
    by code_simp
qed

theorem scan_firefox_cache_sums_profiles_witness:
  "os_listdir firefox_world_mixed [''Firefox'', ''Profiles''] =
     Inr [''a1.default'', ''profiles.ini'', ''b2.release'', ''fresh'', ''c3.dev''] \<and>
   scan_firefox_cache firefox_world_mixed [''Firefox'', ''Profiles''] = Inr (90, 6) \<and>
   \<not> path_exists firefox_world_mixed [''Mozilla'', ''Firefox'', ''Profiles''] \<and>
   scan_firefox_cache firefox_world_mixed [''Mozilla'', ''Firefox'', ''Profiles''] = Inr (0, 0) \<and>
   scan_firefox_cache (quiet_world (Dir [])) [''Firefox'', ''Profiles''] = Inr (0, 0) \<and>
   scan_location_size firefox_world_mixed [''Firefox/Profiles''] = Inr (90, 6)"
proof -
  let ?d = "[''Firefox'', ''Profiles'']"
  have h1: "os_listdir firefox_world_mixed ?d =
      Inr [''a1.default'', ''profiles.ini'', ''b2.release'', ''fresh'', ''c3.dev'']"
    by code_simp
  have v1: "profiles_total firefox_world_mixed ?d
      [''a1.default'', ''profiles.ini'', ''b2.release'', ''fresh'', ''c3.dev''] = (90, 6)"
    by code_simp
  have h2: "\<not> path_exists firefox_world_mixed [''Mozilla'', ''Firefox'', ''Profiles'']"
    by code_simp
  have h3: "\<forall>profile. \<not> path_isdir (quiet_world (Dir [])) (?d @ [profile, ''cache2''])"
    by (simp add: path_isdir_def stat_def lstat_def quiet_world_def)
  have c1: "scan_firefox_cache firefox_world_mixed ?d = Inr (90, 6)"
    using scan_firefox_cache_sums_profiles [of firefox_world_mixed ?d] h1 v1 by simp
  have c2: "scan_firefox_cache firefox_world_mixed [''Mozilla'', ''Firefox'', ''Profiles''] =
      Inr (0, 0)"
    using scan_firefox_cache_sums_profiles
      [of firefox_world_mixed "[''Mozilla'', ''Firefox'', ''Profiles'']"] h2 by blast
  have c3: "scan_firefox_cache (quiet_world (Dir [])) ?d = Inr (0, 0)"
    using scan_firefox_cache_sums_profiles [of "quiet_world (Dir [])" ?d] h3 by blast
  have c4: "scan_location_size firefox_world_mixed [''Firefox/Profiles''] = Inr (90, 6)"
    by code_simp
  show ?thesis
    using h1 c1 h2 c2 c3 c4 by simp
qed

lemma scan_matches_shift:
  "scan_matches w (fst a + x, snd a + y) ms =
     (case scan_matches w a ms of Inl e \<Rightarrow> Inl e | Inr r \<Rightarrow> Inr (fst r + x, snd r + y))"
proof (induction ms arbitrary: a)
  case Nil
  show ?case by simp
next
  case (Cons m ms)
  show ?case
  proof (cases "scan_directory_safely w (path_of m)")
    case (Inl e)
    then show ?thesis by simp
  next
    case (Inr sc)
    have "scan_matches w (fst a + x + fst sc, snd a + y + snd sc) ms =
        scan_matches w (fst (fst a + fst sc, snd a + snd sc) + x,
          snd (fst a + fst sc, snd a + snd sc) + y) ms"
      by (simp add: add.commute add.left_commute)
    then show ?thesis
      using Inr Cons.IH [of "(fst a + fst sc, snd a + snd sc)"] by simp
  qed
qed

lemma scan_patterns_shift:
  "scan_patterns w (fst a + x, snd a + y) ps =
     (case scan_patterns w a ps of Inl e \<Rightarrow> Inl e | Inr r \<Rightarrow> Inr (fst r + x, snd r + y))"
proof (induction ps arbitrary: a)
  case Nil
  show ?case by simp
next
  case (Cons pat ps)
  have sh: "scan_patterns w (fst a + x + u, snd a + y + v) ps =
      (case scan_patterns w (fst a + u, snd a + v) ps of
         Inl e \<Rightarrow> Inl e | Inr r \<Rightarrow> Inr (fst r + x, snd r + y))" for u v
    using Cons.IH [of "(fst a + u, snd a + v)"] by (simp add: add.commute add.left_commute)
  show ?case
  proof (cases "pat = ''REGISTRY_CLEANUP''")
    case True
    then show ?thesis using sh [of 1024 1] by simp
  next
    case rc: False
    show ?thesis
    proof (cases "is_firefox_profiles pat")
      case True
      then show ?thesis using rc sh by (simp split: sum.splits)
    next
      case False
      show ?thesis
      proof (cases "glob_glob w pat")
        case (Inl e)
        then show ?thesis using rc False by simp
      next
        case (Inr ms)
        show ?thesis
        proof (cases "scan_matches w a ms")
          case (Inl e)
          then show ?thesis using rc False Inr by (simp add: scan_matches_shift)
        next
          case r: (Inr a')
          then show ?thesis
            using rc False Inr Cons.IH [of a'] by (simp add: scan_matches_shift)
        qed
      qed
    qed
  qed
qed

lemma scan_patterns_append:
  "scan_patterns w a (xs @ ys) =
     (case scan_patterns w a xs of Inl e \<Rightarrow> Inl e | Inr a' \<Rightarrow> scan_patterns w a' ys)"
  by (induction xs arbitrary: a) (auto split: sum.splits)

text \<open>
  Claim C9. In any list of path patterns and on any machine, an entry
  \<open>REGISTRY_CLEANUP\<close> adds exactly \<open>(1024, 1)\<close> to what \<open>scan_location_size\<close> returns for
  the list without it (and changes nothing when the scan of the other entries raises);
  alone it gives \<open>(1024, 1)\<close>, whatever the file system and the registry hold.
\<close>

theorem scan_location_size_registry_sentinel:
  "scan_location_size w (xs @ ''REGISTRY_CLEANUP'' # ys) =
     (case scan_location_size w (xs @ ys) of
        Inl e \<Rightarrow> Inl e
      | Inr sc \<Rightarrow> Inr (fst sc + 1024, snd sc + 1)) \<and>
   scan_location_size w [''REGISTRY_CLEANUP''] = Inr (1024, 1)"
proof
  show "scan_location_size w (xs @ ''REGISTRY_CLEANUP'' # ys) =
     (case scan_location_size w (xs @ ys) of
        Inl e \<Rightarrow> Inl e
      | Inr sc \<Rightarrow> Inr (fst sc + 1024, snd sc + 1))"
  proof (cases "scan_patterns w (0, 0) xs")
    case (Inl e)
    then show ?thesis
      by (simp add: scan_location_size_def scan_patterns_append)
  next
    case (Inr a)
    then show ?thesis
      using scan_patterns_shift [of w a 1024 1 ys]
      by (simp add: scan_location_size_def scan_patterns_append)
  qed
  show "scan_location_size w [''REGISTRY_CLEANUP''] = Inr (1024, 1)"
    by (simp add: scan_location_size_def)
qed

theorem scan_location_size_registry_sentinel_witness:
  "scan_location_size (quiet_world example_tree) [''tmp'', ''note.txt''] = Inr (42, 4) \<and>
   scan_location_size (quiet_world example_tree) [''tmp'', ''REGISTRY_CLEANUP'', ''note.txt''] =
     Inr (1066, 5) \<and>
   scan_location_size firefox_world [''REGISTRY_CLEANUP''] = Inr (1024, 1)"
proof -
  let ?w = "quiet_world example_tree"
  have v: "scan_location_size ?w ([''tmp''] @ [''note.txt'']) = Inr (42, 4)"
    by code_simp
  have c1: "scan_location_size ?w ([''tmp''] @ ''REGISTRY_CLEANUP'' # [''note.txt'']) =
      Inr (1066, 5)"
    using scan_location_size_registry_sentinel [of ?w "[''tmp'']" "[''note.txt'']"] v
    by simp
  have c2: "scan_location_size firefox_world [''REGISTRY_CLEANUP''] = Inr (1024, 1)"
    using scan_location_size_registry_sentinel [of firefox_world] by simp
  show ?thesis
    using v c1 c2 by simp
qed

section \<open>The claims about the registry\<close>

lemma delete_mru_values_ok:
  "\<forall>c \<in> set cs. delete_value_fails w [c] = None \<Longrightarrow>
   \<exists>vals'. delete_mru_values w vals cs = Inr vals' \<and>
     (\<forall>k. map_of vals' k = (if k \<in> (\<lambda>c. [c]) ` set cs then None else map_of vals k))"
proof (induction cs arbitrary: vals)
  case Nil
  show ?case by simp
next
  case (Cons c cs)
  have nf: "delete_value_fails w [c] = None" and rest: "\<forall>c \<in> set cs. delete_value_fails w [c] = None"
    using Cons.prems by simp_all
  show ?case
  proof (cases "map_of vals [c]")
    case None
    obtain vals' where v: "delete_mru_values w vals cs = Inr vals'"
      "\<forall>k. map_of vals' k = (if k \<in> (\<lambda>c. [c]) ` set cs then None else map_of vals k)"
      using Cons.IH [OF rest, of vals] by blast
    have "delete_mru_values w vals (c # cs) = Inr vals'"
      using nf None v(1) by (simp add: DeleteValue_def)
    moreover have "\<forall>k. map_of vals' k =
        (if k \<in> (\<lambda>c. [c]) ` set (c # cs) then None else map_of vals k)"
      using v(2) None by auto
    ultimately show ?thesis by blast
  next
    case (Some x)
    obtain vals' where v: "delete_mru_values w (AList.delete [c] vals) cs = Inr vals'"
      "\<forall>k. map_of vals' k =
         (if k \<in> (\<lambda>c. [c]) ` set cs then None else map_of (AList.delete [c] vals) k)"
      using Cons.IH [OF rest, of "AList.delete [c] vals"] by blast
    have "delete_mru_values w vals (c # cs) = Inr vals'"
      using nf Some v(1) by (simp add: DeleteValue_def)
    moreover have "\<forall>k. map_of vals' k =
        (if k \<in> (\<lambda>c. [c]) ` set (c # cs) then None else map_of vals k)"
      using v(2) by (auto simp: delete_conv)
    ultimately show ?thesis by blast
  qed
qed

lemma delete_mru_values_denied:
  "c \<in> set cs \<Longrightarrow> delete_value_fails w [c] = Some e \<Longrightarrow> e \<noteq> FileNotFoundError \<Longrightarrow>
   \<exists>x. delete_mru_values w vals cs = Inl x"
proof (induction cs arbitrary: vals)
  case Nil
  then show ?case by simp
next
  case (Cons a cs)
  show ?case
  proof (cases "DeleteValue w vals [a]")
    case (Inr vals')
    then have "a \<noteq> c"
      using Cons.prems(2) by (auto simp: DeleteValue_def)
    then show ?thesis
      using Inr Cons by simp
  next
    case (Inl e')
    show ?thesis
    proof (cases "e' = FileNotFoundError")
      case True
      then have "a \<noteq> c"
        using Inl Cons.prems(2,3) by (auto simp: DeleteValue_def)
      then show ?thesis
        using Inl True Cons by simp
    next
      case False
      then show ?thesis using Inl by simp
    qed
  qed
qed

lemma clear_run_history_success:
  assumes "run_mru w = Inr vals" "map_of vals ''MRUList'' = Some mrulist"
    "\<forall>c \<in> set mrulist. delete_value_fails w [c] = None" "set_value_fails w = None"
  shows "\<exists>vals'. clear_run_history w = ((1, 1024), w\<lparr>run_mru := Inr vals'\<rparr>) \<and>
     map_of vals' ''MRUList'' = Some [] \<and>
     (\<forall>c \<in> set mrulist. map_of vals' [c] = None) \<and>
     (\<forall>k. k \<noteq> ''MRUList'' \<and> k \<notin> (\<lambda>c. [c]) ` set mrulist \<longrightarrow> map_of vals' k = map_of vals k)"
proof -
  obtain vals1 where v: "delete_mru_values w vals mrulist = Inr vals1"
    "\<forall>k. map_of vals1 k = (if k \<in> (\<lambda>c. [c]) ` set mrulist then None else map_of vals k)"
    using delete_mru_values_ok [OF assms(3), of vals] by blast
  let ?v = "AList.update ''MRUList'' [] vals1"
  have r: "clear_run_history w = ((1, 1024), w\<lparr>run_mru := Inr ?v\<rparr>)"
    using assms(1,2,4) v(1)
    by (simp add: clear_run_history_def QueryValueEx_def SetValueEx_def)
  have m: "map_of ?v k = (if k = ''MRUList'' then Some [] else map_of vals1 k)" for k
    by (simp add: update_conv)
  have ne: "[c] \<noteq> ''MRUList''" for c :: char
    by simp
  have p1: "map_of ?v ''MRUList'' = Some []"
    using m by simp
  have p2: "\<forall>c \<in> set mrulist. map_of ?v [c] = None"
    using m v(2) ne by auto
  have p3: "\<forall>k. k \<noteq> ''MRUList'' \<and> k \<notin> (\<lambda>c. [c]) ` set mrulist \<longrightarrow> map_of ?v k = map_of vals k"
    using m v(2) by auto
  show ?thesis
    using r p1 p2 p3 by blast
qed

text \<open>
  Claim C7. When the key opens, the list-order value is there and no deletion and no
  write is refused, \<open>clear_run_history\<close> returns the nominal \<open>(1, 1024)\<close>, whatever the
  number of values; afterwards no value named in the list is left, the list-order value
  is the empty string, every other value is as it was, and a second call returns
  \<open>(1, 1024)\<close> again. When the key cannot be opened (absent, access denied), when the
  list-order value is missing, when a deletion is refused or the write is refused, it
  returns \<open>(0, 0)\<close>. It returns one of the two in every case.
\<close>

theorem clear_run_history_nominal:
  "(run_mru w = Inr vals \<and> map_of vals ''MRUList'' = Some mrulist \<and>
    (\<forall>c \<in> set mrulist. delete_value_fails w [c] = None) \<and> set_value_fails w = None \<longrightarrow>
      (\<exists>vals'. clear_run_history w = ((1, 1024), w\<lparr>run_mru := Inr vals'\<rparr>) \<and>
         map_of vals' ''MRUList'' = Some [] \<and>
         (\<forall>c \<in> set mrulist. map_of vals' [c] = None) \<and>
         (\<forall>k. k \<noteq> ''MRUList'' \<and> k \<notin> (\<lambda>c. [c]) ` set mrulist \<longrightarrow>
            map_of vals' k = map_of vals k) \<and>
         fst (clear_run_history (snd (clear_run_history w))) = (1, 1024))) \<and>
   (run_mru w = Inl e \<longrightarrow> clear_run_history w = ((0, 0), w)) \<and>
   (run_mru w = Inr vals \<and> map_of vals ''MRUList'' = None \<longrightarrow>
      clear_run_history w = ((0, 0), w)) \<and>
   (run_mru w = Inr vals \<and> map_of vals ''MRUList'' = Some mrulist \<and> c \<in> set mrulist \<and>
    delete_value_fails w [c] = Some e \<and> e \<noteq> FileNotFoundError \<longrightarrow>
      fst (clear_run_history w) = (0, 0)) \<and>
   (set_value_fails w = Some e \<longrightarrow> fst (clear_run_history w) = (0, 0)) \<and>
   (fst (clear_run_history w) = (1, 1024) \<or> fst (clear_run_history w) = (0, 0))"
proof (intro conjI impI)
  assume a: "run_mru w = Inr vals \<and> map_of vals ''MRUList'' = Some mrulist \<and>
    (\<forall>c \<in> set mrulist. delete_value_fails w [c] = None) \<and> set_value_fails w = None"
  then obtain vals' where v: "clear_run_history w = ((1, 1024), w\<lparr>run_mru := Inr vals'\<rparr>)"
    "map_of vals' ''MRUList'' = Some []" "\<forall>c \<in> set mrulist. map_of vals' [c] = None"
    "\<forall>k. k \<noteq> ''MRUList'' \<and> k \<notin> (\<lambda>c. [c]) ` set mrulist \<longrightarrow> map_of vals' k = map_of vals k"
    using clear_run_history_success [of w vals mrulist] by blast
  let ?w = "w\<lparr>run_mru := Inr vals'\<rparr>"
  have q: "run_mru ?w = Inr vals'" "\<forall>c \<in> set []. delete_value_fails ?w [c] = None"
    "set_value_fails ?w = None"
    using a by simp_all
  obtain v2 where "clear_run_history ?w = ((1, 1024), ?w\<lparr>run_mru := Inr v2\<rparr>)"
    using clear_run_history_success [OF q(1) v(2) q(2) q(3)] by blast
  then have "fst (clear_run_history (snd (clear_run_history w))) = (1, 1024)"
    by (simp add: v(1))
  then show "\<exists>vals'. clear_run_history w = ((1, 1024), w\<lparr>run_mru := Inr vals'\<rparr>) \<and>
         map_of vals' ''MRUList'' = Some [] \<and>
         (\<forall>c \<in> set mrulist. map_of vals' [c] = None) \<and>
         (\<forall>k. k \<noteq> ''MRUList'' \<and> k \<notin> (\<lambda>c. [c]) ` set mrulist \<longrightarrow>
            map_of vals' k = map_of vals k) \<and>
         fst (clear_run_history (snd (clear_run_history w))) = (1, 1024)"
    using v by blast
next
  assume "run_mru w = Inl e"
  then show "clear_run_history w = ((0, 0), w)"
    by (simp add: clear_run_history_def)
next
  assume "run_mru w = Inr vals \<and> map_of vals ''MRUList'' = None"
  then show "clear_run_history w = ((0, 0), w)"
    by (simp add: clear_run_history_def QueryValueEx_def)
next
  assume a: "run_mru w = Inr vals \<and> map_of vals ''MRUList'' = Some mrulist \<and> c \<in> set mrulist \<and>
    delete_value_fails w [c] = Some e \<and> e \<noteq> FileNotFoundError"
  then obtain x where "delete_mru_values w vals mrulist = Inl x"
    using delete_mru_values_denied [of c mrulist w e vals] by blast
  then show "fst (clear_run_history w) = (0, 0)"
    using a by (cases x) (simp add: clear_run_history_def QueryValueEx_def)
next
  assume "set_value_fails w = Some e"
  then show "fst (clear_run_history w) = (0, 0)"
    by (auto simp: clear_run_history_def SetValueEx_def split: sum.splits prod.splits)
next
  show "fst (clear_run_history w) = (1, 1024) \<or> fst (clear_run_history w) = (0, 0)"
    by (auto simp: clear_run_history_def split: sum.splits prod.splits)
qed

theorem clear_run_history_nominal_witness:
  "run_mru mru_world = Inr [(''a'', ''cmd''), (''b'', ''notepad''), (''MRUList'', ''dcba''),
                         (''c'', ''regedit''), (''d'', ''calc'')] \<and>
   fst (clear_run_history mru_world) = (1, 1024) \<and>
   run_mru (snd (clear_run_history mru_world)) = Inr [(''MRUList'', [])] \<and>
   fst (clear_run_history (snd (clear_run_history mru_world))) = (1, 1024) \<and>
   run_mru (quiet_world (Dir [])) = Inl FileNotFoundError \<and>
   clear_run_history (quiet_world (Dir [])) = ((0, 0), quiet_world (Dir [])) \<and>
   delete_value_fails mru_world_denied ''b'' = Some PermissionError \<and>
   fst (clear_run_history mru_world_denied) = (0, 0) \<and>
   run_mru (snd (clear_run_history mru_world_denied)) =
     Inr [(''a'', ''cmd''), (''b'', ''notepad''), (''MRUList'', ''dcba'')]"
proof -
  let ?vals = "[(''a'', ''cmd''), (''b'', ''notepad''), (''MRUList'', ''dcba''),
                         (''c'', ''regedit''), (''d'', ''calc'')]"
  have h1: "run_mru mru_world = Inr ?vals \<and> map_of ?vals ''MRUList'' = Some ''dcba'' \<and>
      (\<forall>c \<in> set ''dcba''. delete_value_fails mru_world [c] = None) \<and>
      set_value_fails mru_world = None"
    by (simp add: mru_world_def quiet_world_def)
  have "\<exists>vals'. clear_run_history mru_world = ((1, 1024), mru_world\<lparr>run_mru := Inr vals'\<rparr>) \<and>
         map_of vals' ''MRUList'' = Some [] \<and>
         (\<forall>c \<in> set ''dcba''. map_of vals' [c] = None) \<and>
         (\<forall>k. k \<noteq> ''MRUList'' \<and> k \<notin> (\<lambda>c. [c]) ` set ''dcba'' \<longrightarrow>
            map_of vals' k = map_of ?vals k) \<and>
         fst (clear_run_history (snd (clear_run_history mru_world))) = (1, 1024)"
    using clear_run_history_nominal [of mru_world ?vals "''dcba''", THEN conjunct1] h1
    by (rule mp)
  then obtain vals' where
    "clear_run_history mru_world = ((1, 1024), mru_world\<lparr>run_mru := Inr vals'\<rparr>)"
    "fst (clear_run_history (snd (clear_run_history mru_world))) = (1, 1024)"
    by blast
  then have c1: "fst (clear_run_history mru_world) = (1, 1024) \<and>
      fst (clear_run_history (snd (clear_run_history mru_world))) = (1, 1024)"
    by simp
  have v1: "run_mru (snd (clear_run_history mru_world)) = Inr [(''MRUList'', [])]"
    by code_simp
  have h2: "run_mru (quiet_world (Dir [])) = Inl FileNotFoundError"
    by (simp add: quiet_world_def)
  have c2: "clear_run_history (quiet_world (Dir [])) = ((0, 0), quiet_world (Dir []))"
    using clear_run_history_nominal [of "quiet_world (Dir [])" _ _ FileNotFoundError] h2
    by blast
  have h3: "run_mru mru_world_denied = Inr ?vals \<and> map_of ?vals ''MRUList'' = Some ''dcba'' \<and>
      CHR ''b'' \<in> set ''dcba'' \<and>
      delete_value_fails mru_world_denied [CHR ''b''] = Some PermissionError \<and>
      PermissionError \<noteq> FileNotFoundError"
    by (simp add: mru_world_denied_def mru_world_def quiet_world_def)
  have c3: "fst (clear_run_history mru_world_denied) = (0, 0)"
    using clear_run_history_nominal
      [of mru_world_denied ?vals "''dcba''" PermissionError "CHR ''b''"] h3
    by blast
  have v3: "run_mru (snd (clear_run_history mru_world_denied)) =
     Inr [(''a'', ''cmd''), (''b'', ''notepad''), (''MRUList'', ''dcba'')]"
    by code_simp
  show ?thesis
    using h1 c1 v1 h2 c2 h3 c3 v3 by simp
qed

lemma QueryValueEx_error: "QueryValueEx vals nm = Inl e \<Longrightarrow> e = FileNotFoundError"
  by (auto simp: QueryValueEx_def split: option.splits)

lemma read_app_Inr:
  "i < length key \<Longrightarrow> read_app key i = Inr x \<Longrightarrow>
   x = valid_app (OpenKey_sub key (fst (key ! i)))"
  by (auto simp: read_app_def EnumKey_def valid_app_def QueryValueEx_def
      split: sum.splits option.splits if_splits)

lemma read_app_Inl:
  "i < length key \<Longrightarrow> read_app key i = Inl e \<Longrightarrow>
   valid_app (OpenKey_sub key (fst (key ! i))) = None \<and>
   (is_OSError e \<or> OpenKey_sub key (fst (key ! i)) = Inl e)"
  by (auto simp: read_app_def EnumKey_def valid_app_def QueryValueEx_def
      split: sum.splits option.splits if_splits)

lemma enum_apps_Inr:
  "\<forall>i \<in> set xs. i < length key \<Longrightarrow> enum_apps key apps xs = Inr apps' \<Longrightarrow>
   apps' = apps @ List.map_filter (\<lambda>i. valid_app (OpenKey_sub key (fst (key ! i)))) xs"
proof (induction xs arbitrary: apps)
  case Nil
  then show ?case by simp
next
  case (Cons i xs)
  have il: "i < length key" and rest: "\<forall>i \<in> set xs. i < length key"
    using Cons.prems(1) by simp_all
  show ?case
  proof (cases "read_app key i")
    case (Inl e)
    then have "valid_app (OpenKey_sub key (fst (key ! i))) = None"
      using read_app_Inl [OF il] by blast
    moreover have "enum_apps key apps xs = Inr apps'"
      using Cons.prems(2) Inl by (simp split: if_splits)
    ultimately show ?thesis
      using Cons.IH [OF rest] by simp
  next
    case (Inr x)
    then have x: "x = valid_app (OpenKey_sub key (fst (key ! i)))"
      using read_app_Inr [OF il] by blast
    show ?thesis
    proof (cases x)
      case None
      then have "enum_apps key apps xs = Inr apps'"
        using Cons.prems(2) Inr by simp
      then show ?thesis
        using Cons.IH [OF rest] None x by simp
    next
      case (Some a)
      then have "enum_apps key (apps @ [a]) xs = Inr apps'"
        using Cons.prems(2) Inr by simp
      then have "apps' = (apps @ [a]) @
          List.map_filter (\<lambda>i. valid_app (OpenKey_sub key (fst (key ! i)))) xs"
        by (rule Cons.IH [OF rest])
      then show ?thesis
        using Some x by simp
    qed
  qed
qed

lemma enum_apps_Inl: "enum_apps key apps xs = Inl (e, apps') \<Longrightarrow> \<not> is_OSError e"
  by (induction xs arbitrary: apps) (auto split: sum.splits option.splits if_splits)

lemma OpenKey_sub_nth:
  "i < length key \<Longrightarrow> \<exists>s \<in> set key. OpenKey_sub key (fst (key ! i)) = snd s"
proof -
  assume il: "i < length key"
  then have "fst (key ! i) \<in> fst ` set key"
    by (metis image_eqI nth_mem)
  then obtain r where r: "map_of key (fst (key ! i)) = Some r"
    by (metis domD dom_map_of_conv_image_fst)
  then have "(fst (key ! i), r) \<in> set key"
    by (rule map_of_SomeD)
  then show ?thesis
    using r by (force simp: OpenKey_sub_def)
qed

lemma enum_apps_total:
  "\<forall>i \<in> set xs. i < length key \<Longrightarrow> subkey_errors_are_OSErrors key \<Longrightarrow>
   \<exists>apps'. enum_apps key apps xs = Inr apps'"
proof (induction xs arbitrary: apps)
  case Nil
  show ?case by simp
next
  case (Cons i xs)
  have il: "i < length key" and rest: "\<forall>i \<in> set xs. i < length key"
    using Cons.prems(1) by simp_all
  have ih: "\<exists>apps'. enum_apps key b xs = Inr apps'" for b
    using Cons.IH [OF rest Cons.prems(2)] .
  show ?case
  proof (cases "read_app key i")
    case (Inl e)
    obtain s where s: "s \<in> set key" "OpenKey_sub key (fst (key ! i)) = snd s"
      using OpenKey_sub_nth [OF il] by blast
    have "is_OSError e"
      using read_app_Inl [OF il Inl] s Cons.prems(2)
      by (auto simp: subkey_errors_are_OSErrors_def list_all_iff)
    then show ?thesis
      using Inl ih by simp
  next
    case (Inr x)
    then show ?thesis
      using ih by (cases x) simp_all
  qed
qed

lemma map_filter_map: "List.map_filter f (map g xs) = List.map_filter (\<lambda>x. f (g x)) xs"
  by (induction xs) (simp_all split: option.splits)

lemma listed_apps_indices:
  "List.map_filter (\<lambda>i. valid_app (OpenKey_sub key (fst (key ! i)))) [0..<length key] =
   listed_apps key"
proof -
  have "map fst key = map fst (map (\<lambda>i. key ! i) [0..<length key])"
    by (simp only: map_nth)
  then have "map fst key = map (\<lambda>i. fst (key ! i)) [0..<length key]"
    by (simp add: comp_def)
  then show ?thesis
    by (simp add: listed_apps_def map_filter_map)
qed

lemma enum_hives_Inr:
  "enum_hives w apps hs = Inr apps' \<Longrightarrow> apps' = apps @ concat (map (hive_apps w) hs)"
proof (induction hs arbitrary: apps)
  case Nil
  then show ?case by simp
next
  case (Cons h hs)
  show ?case
  proof (cases "uninstall_key w h")
    case (Inl e)
    then have "enum_hives w apps hs = Inr apps'"
      using Cons.prems by (simp add: OpenKey_uninstall_def split: if_splits)
    then have "apps' = apps @ concat (map (hive_apps w) hs)"
      by (rule Cons.IH)
    moreover have "hive_apps w h = []"
      using Inl by (simp add: hive_apps_def)
    ultimately show ?thesis
      by simp
  next
    case (Inr key)
    show ?thesis
    proof (cases "enum_apps key apps [0..<length key]")
      case l: (Inl x)
      obtain e a where x: "x = (e, a)" by (cases x)
      have "e \<noteq> FileNotFoundError"
        using enum_apps_Inl l x by fastforce
      then show ?thesis
        using Cons.prems Inr l x by (simp add: OpenKey_uninstall_def QueryInfoKey_def)
    next
      case r: (Inr apps1)
      have a1: "apps1 = apps @ listed_apps key"
        using enum_apps_Inr [of "[0..<length key]" key apps apps1] r
        by (simp add: listed_apps_indices)
      have "enum_hives w apps1 hs = Inr apps'"
        using Cons.prems Inr r by (simp add: OpenKey_uninstall_def QueryInfoKey_def)
      then have "apps' = apps1 @ concat (map (hive_apps w) hs)"
        by (rule Cons.IH)
      moreover have "hive_apps w h = listed_apps key"
        using Inr by (simp add: hive_apps_def)
      ultimately show ?thesis
        using a1 by simp
    qed
  qed
qed

lemma enum_hives_total:
  "\<forall>h \<in> set hs. root_opens_or_is_absent w h \<Longrightarrow> \<exists>apps'. enum_hives w apps hs = Inr apps'"
proof (induction hs arbitrary: apps)
  case Nil
  show ?case by simp
next
  case (Cons h hs)
  have ih: "\<exists>apps'. enum_hives w b hs = Inr apps'" for b
    using Cons by simp
  have ok: "root_opens_or_is_absent w h"
    using Cons.prems by simp
  show ?case
  proof (cases "uninstall_key w h")
    case (Inl e)
    then show ?thesis
      using ok ih by (simp add: root_opens_or_is_absent_def OpenKey_uninstall_def)
  next
    case (Inr key)
    then have "subkey_errors_are_OSErrors key"
      using ok by (simp add: root_opens_or_is_absent_def)
    then obtain apps1 where "enum_apps key apps [0..<length key] = Inr apps1"
      using enum_apps_total [of "[0..<length key]" key apps] by auto
    then show ?thesis
      using Inr ih by (simp add: OpenKey_uninstall_def QueryInfoKey_def)
  qed
qed

lemma valid_app_truthy:
  "valid_app r = Some a \<Longrightarrow> truthy (app_name a) \<and> truthy (app_command a)"
  by (auto simp: valid_app_def split: sum.splits option.splits if_splits)

lemma hive_apps_truthy:
  "a \<in> set (hive_apps w h) \<Longrightarrow> truthy (app_name a) \<and> truthy (app_command a)"
  by (auto simp: hive_apps_def listed_apps_def List.map_filter_def
      split: sum.splits dest: valid_app_truthy)

lemma get_installed_apps_Inr:
  assumes "get_installed_apps w = Inr apps"
  shows "py_sorted (hive_apps w HKEY_CURRENT_USER @ hive_apps w HKEY_LOCAL_MACHINE) = Inr apps"
proof -
  obtain xs where xs: "enum_hives w [] [HKEY_CURRENT_USER, HKEY_LOCAL_MACHINE] = Inr xs"
    and a: "py_sorted xs = Inr apps"
    using assms by (auto simp: get_installed_apps_def split: sum.splits)
  have "xs = [] @ concat (map (hive_apps w) [HKEY_CURRENT_USER, HKEY_LOCAL_MACHINE])"
    using xs by (rule enum_hives_Inr)
  then show ?thesis
    using a by simp
qed

lemma get_installed_apps_py_sorted:
  assumes "root_opens_or_is_absent w HKEY_CURRENT_USER"
    and "root_opens_or_is_absent w HKEY_LOCAL_MACHINE"
  shows "get_installed_apps w =
    py_sorted (hive_apps w HKEY_CURRENT_USER @ hive_apps w HKEY_LOCAL_MACHINE)"
proof -
  have "\<forall>h \<in> set [HKEY_CURRENT_USER, HKEY_LOCAL_MACHINE]. root_opens_or_is_absent w h"
    using assms by simp
  then obtain xs where xs: "enum_hives w [] [HKEY_CURRENT_USER, HKEY_LOCAL_MACHINE] = Inr xs"
    using enum_hives_total by blast
  have "xs = [] @ concat (map (hive_apps w) [HKEY_CURRENT_USER, HKEY_LOCAL_MACHINE])"
    using xs by (rule enum_hives_Inr)
  then show ?thesis
    using xs by (simp add: get_installed_apps_def)
qed

text \<open>
  The sort. On entries whose names are all strings it is the stable sort by name. It
  raises nothing but \<open>TypeError\<close>, and it returns only a permutation of its argument; when
  it returns on two entries or more, the names of any two of them are comparable, so
  that names of two types make it raise.
\<close>

lemma two_members: "a \<noteq> b \<Longrightarrow> a \<in> set xs \<Longrightarrow> b \<in> set xs \<Longrightarrow> 2 \<le> length xs"
proof (cases xs)
  case Nil
  assume "a \<in> set xs"
  then show ?thesis
    using Nil by simp
next
  case (Cons x ys)
  assume "a \<noteq> b" "a \<in> set xs" "b \<in> set xs"
  then have "ys \<noteq> []"
    using Cons by auto
  then show ?thesis
    using Cons by (cases ys) simp_all
qed

lemma py_lt_comparable: "(\<exists>r. py_lt a b = Inr r) = comparable a b"
  by (cases a; cases b) simp_all

lemma py_lt_Inl: "py_lt a b = Inl e \<Longrightarrow> e = TypeError"
  by (cases a; cases b) simp_all

lemma comparable_sym: "comparable a b \<Longrightarrow> comparable b a"
  by (cases a; cases b) simp_all

lemma comparable_trans: "comparable a b \<Longrightarrow> comparable b c \<Longrightarrow> comparable a c"
  by (cases a; cases b; cases c) simp_all

lemma py_insort_strings:
  "names_are_strings ys \<Longrightarrow> is_str (app_name x) \<Longrightarrow>
   py_insort x ys = Inr (insort_key name_str x ys)"
proof (induction ys)
  case Nil
  show ?case by simp
next
  case (Cons y ys)
  obtain s where s: "app_name x = PyStr s"
    using Cons.prems(2) by (cases "app_name x") simp_all
  obtain t where t: "app_name y = PyStr t"
    using Cons.prems(1) by (cases "app_name y") (simp_all add: names_are_strings_def)
  have "names_are_strings ys"
    using Cons.prems(1) by (simp add: names_are_strings_def)
  then have ih: "py_insort x ys = Inr (insort_key name_str x ys)"
    using Cons.IH Cons.prems(2) by simp
  have nx: "name_str x = s" and ny: "name_str y = t"
    using s t by (simp_all add: name_str_def)
  show ?case
  proof (cases "t < s")
    case True
    then have "\<not> s \<le> t"
      by simp
    then show ?thesis
      using True s t ih nx ny by simp
  next
    case False
    then have "s \<le> t"
      by simp
    then show ?thesis
      using False s t nx ny by simp
  qed
qed

lemma py_sorted_strings:
  "names_are_strings xs \<Longrightarrow> py_sorted xs = Inr (sort_key name_str xs)"
proof (induction xs)
  case Nil
  show ?case by simp
next
  case (Cons x xs)
  have r: "names_are_strings xs" and h: "is_str (app_name x)"
    using Cons.prems by (simp_all add: names_are_strings_def)
  have "names_are_strings (sort_key name_str xs)"
    using r by (simp add: names_are_strings_def list_all_iff)
  then have "py_insort x (sort_key name_str xs) =
      Inr (insort_key name_str x (sort_key name_str xs))"
    using h by (rule py_insort_strings)
  then show ?case
    using Cons.IH [OF r] by (simp add: sort_key_def)
qed

lemma py_insort_Inl: "py_insort x ys = Inl e \<Longrightarrow> e = TypeError"
  by (induction ys) (auto split: sum.splits bool.splits dest: py_lt_Inl)

lemma py_sorted_Inl: "py_sorted xs = Inl e \<Longrightarrow> e = TypeError"
  by (induction xs) (auto split: sum.splits dest: py_insort_Inl)

lemma py_insort_Inr:
  "py_insort x ys = Inr zs \<Longrightarrow>
   mset zs = add_mset x (mset ys) \<and> (ys \<noteq> [] \<longrightarrow> comparable (app_name (hd ys)) (app_name x))"
proof (induction ys arbitrary: zs)
  case Nil
  then show ?case by auto
next
  case (Cons y ys)
  obtain r where r: "py_lt (app_name y) (app_name x) = Inr r"
    using Cons.prems by (auto split: sum.splits)
  then have c: "comparable (app_name y) (app_name x)"
    using py_lt_comparable by blast
  show ?case
  proof (cases r)
    case False
    then show ?thesis
      using Cons.prems r c by auto
  next
    case True
    then obtain zs' where z: "py_insort x ys = Inr zs'" "zs = y # zs'"
      using Cons.prems r by (auto split: sum.splits)
    then have "mset zs' = add_mset x (mset ys)"
      using Cons.IH by blast
    then show ?thesis
      using z c by simp
  qed
qed

lemma py_sorted_Inr:
  "py_sorted xs = Inr ys \<Longrightarrow>
   mset ys = mset xs \<and>
   (2 \<le> length xs \<longrightarrow>
      (\<forall>a \<in> set xs. \<forall>b \<in> set xs. comparable (app_name a) (app_name b)))"
proof (induction xs arbitrary: ys)
  case Nil
  then show ?case by simp
next
  case (Cons x xs)
  obtain ys' where y: "py_sorted xs = Inr ys'" and i: "py_insort x ys' = Inr ys"
    using Cons.prems by (auto split: sum.splits)
  have m: "mset ys' = mset xs"
    and pw: "2 \<le> length xs \<longrightarrow>
      (\<forall>a \<in> set xs. \<forall>b \<in> set xs. comparable (app_name a) (app_name b))"
    using Cons.IH [OF y] by simp_all
  have mz: "mset ys = add_mset x (mset ys')"
    and hd: "ys' \<noteq> [] \<longrightarrow> comparable (app_name (hd ys')) (app_name x)"
    using py_insort_Inr [OF i] by simp_all
  have s: "set ys' = set xs"
    using m by (rule mset_eq_setD)
  have all: "\<forall>a \<in> set (x # xs). \<forall>b \<in> set (x # xs). comparable (app_name a) (app_name b)"
    if two: "2 \<le> length (x # xs)"
  proof -
    have ne: "ys' \<noteq> []"
      using two s by auto
    then have hx: "comparable (app_name (hd ys')) (app_name x)"
      using hd by simp
    have hin: "hd ys' \<in> set xs"
      using ne s by (metis hd_in_set)
    have xx: "comparable (app_name x) (app_name x)"
      using hx comparable_sym comparable_trans by blast
    have among: "comparable (app_name a) (app_name b)" if "a \<in> set xs" "b \<in> set xs" for a b
    proof (cases "2 \<le> length xs")
      case True
      then show ?thesis
        using pw that by blast
    next
      case False
      then have "length xs = 1"
        using two by simp
      then obtain z where "xs = [z]"
        by (cases xs) simp_all
      then have "a = hd ys'" "b = hd ys'"
        using that hin by simp_all
      then show ?thesis
        using hx comparable_sym comparable_trans by blast
    qed
    have to_x: "comparable (app_name a) (app_name x)" if "a \<in> set xs" for a
      using among [OF that hin] hx comparable_trans by blast
    show ?thesis
      using xx among to_x comparable_sym by auto
  qed
  show ?case
    using mz m all by simp
qed

lemma py_sorted_mixed:
  assumes "a \<in> set xs" and "b \<in> set xs" and "2 \<le> length xs"
    and "\<not> comparable (app_name a) (app_name b)"
  shows "py_sorted xs = Inl TypeError"
proof (cases "py_sorted xs")
  case (Inl e)
  then show ?thesis
    using py_sorted_Inl by blast
next
  case (Inr ys)
  then have "comparable (app_name a) (app_name b)"
    using py_sorted_Inr assms(1,2,3) by blast
  then show ?thesis
    using assms(4) by simp
qed

text \<open>
  What \<open>get_installed_apps\<close> does on every registry whose roots open or are absent. Where
  the display names that pass the filter are all strings, it returns what the
  specification says: the entries of both roots (the user's first), every subkey that
  does not open, or lacks the display name or the uninstall command, or has one of them
  empty, left out; sorted by name in ascending order; equal names from the two roots
  both kept. Where two of them are of two types, it raises \<open>TypeError\<close>.
\<close>

lemma get_installed_apps_of_strings:
  assumes "root_opens_or_is_absent w HKEY_CURRENT_USER"
    and "root_opens_or_is_absent w HKEY_LOCAL_MACHINE"
    and "names_are_strings (hive_apps w HKEY_CURRENT_USER @ hive_apps w HKEY_LOCAL_MACHINE)"
  shows "\<exists>apps. get_installed_apps w = Inr apps \<and>
      apps = sort_key name_str
        (hive_apps w HKEY_CURRENT_USER @ hive_apps w HKEY_LOCAL_MACHINE) \<and>
      sorted (map name_str apps) \<and>
      (\<forall>a \<in> set apps. name_str a \<noteq> [] \<and> app_name a = PyStr (name_str a) \<and>
         truthy (app_command a)) \<and>
      mset apps = mset (hive_apps w HKEY_CURRENT_USER) + mset (hive_apps w HKEY_LOCAL_MACHINE)"
proof -
  let ?xs = "hive_apps w HKEY_CURRENT_USER @ hive_apps w HKEY_LOCAL_MACHINE"
  let ?apps = "sort_key name_str ?xs"
  have g: "get_installed_apps w = Inr ?apps"
    using get_installed_apps_py_sorted [OF assms(1,2)] py_sorted_strings [OF assms(3)] by simp
  have s: "sorted (map name_str ?apps)"
    by (rule sorted_sort_key)
  have n: "name_str a \<noteq> [] \<and> app_name a = PyStr (name_str a) \<and> truthy (app_command a)"
    if "a \<in> set ?apps" for a
  proof -
    have ax: "a \<in> set ?xs"
      using that by simp
    then have t: "truthy (app_name a) \<and> truthy (app_command a)"
      using hive_apps_truthy by auto
    have "is_str (app_name a)"
      using assms(3) ax by (simp add: names_are_strings_def list_all_iff)
    then show ?thesis
      using t by (cases "app_name a") (simp_all add: name_str_def)
  qed
  have m: "mset ?apps =
      mset (hive_apps w HKEY_CURRENT_USER) + mset (hive_apps w HKEY_LOCAL_MACHINE)"
    by simp
  show ?thesis
    using g s n m by blast
qed

lemma get_installed_apps_of_two_types:
  assumes "root_opens_or_is_absent w HKEY_CURRENT_USER"
    and "root_opens_or_is_absent w HKEY_LOCAL_MACHINE"
    and "a \<in> set (hive_apps w HKEY_CURRENT_USER @ hive_apps w HKEY_LOCAL_MACHINE)"
    and "b \<in> set (hive_apps w HKEY_CURRENT_USER @ hive_apps w HKEY_LOCAL_MACHINE)"
    and "\<not> comparable (app_name a) (app_name b)"
  shows "get_installed_apps w = Inl TypeError"
proof -
  let ?xs = "hive_apps w HKEY_CURRENT_USER @ hive_apps w HKEY_LOCAL_MACHINE"
  have t: "truthy (app_name a)"
    using assms(3) hive_apps_truthy by auto
  have "a \<noteq> b"
  proof
    assume "a = b"
    then have "\<not> comparable (app_name a) (app_name a)"
      using assms(5) by simp
    then show False
      using t by (cases "app_name a") simp_all
  qed
  then have "2 \<le> length ?xs"
    using assms(3,4) by (rule two_members)
  then have "py_sorted ?xs = Inl TypeError"
    using py_sorted_mixed [OF assms(3,4)] assms(5) by blast
  then show ?thesis
    using get_installed_apps_py_sorted [OF assms(1,2)] by simp
qed

text \<open>
  Claim C8, on a registry the function can meet. The user's root has two applications,
  both with a display name and an uninstall command; the display name of one is a string,
  that of the other was written as a number. Both pass the filter, since a number that
  is not zero is true, and the sort at the end, which no handler covers, compares the
  number with the string: \<open>get_installed_apps\<close> ends with \<open>TypeError\<close> and returns no
  list, neither sorted nor otherwise. With the numeric name alone nothing is compared,
  and the entry is returned with a name that is a number. A registry with the same two
  applications and string names gives the sorted list.
\<close>

theorem get_installed_apps_raises_on_names_of_two_types:
  "root_opens_or_is_absent apps_world_mixed HKEY_CURRENT_USER \<and>
   root_opens_or_is_absent apps_world_mixed HKEY_LOCAL_MACHINE \<and>
   hive_apps apps_world_mixed HKEY_CURRENT_USER =
     [\<lparr>app_name = PyStr ''Zeta Tool'', app_command = PyStr ''zeta.exe /u''\<rparr>,
      \<lparr>app_name = PyInt 7, app_command = PyStr ''seven.exe /u''\<rparr>] \<and>
   get_installed_apps apps_world_mixed = Inl TypeError \<and>
   get_installed_apps apps_world_numeric =
     Inr [\<lparr>app_name = PyInt 7, app_command = PyStr ''seven.exe /u''\<rparr>] \<and>
   get_installed_apps apps_world =
     Inr [\<lparr>app_name = PyStr ''Alpha'', app_command = PyStr ''alpha.exe''\<rparr>,
          \<lparr>app_name = PyStr ''Zeta Tool'', app_command = PyStr ''zeta.exe /u''\<rparr>,
          \<lparr>app_name = PyStr ''Zeta Tool'', app_command = PyStr ''zeta64.exe /u''\<rparr>] \<and>
   get_installed_apps apps_world_no_user_key =
     Inr [\<lparr>app_name = PyStr ''Alpha'', app_command = PyStr ''alpha.exe''\<rparr>,
          \<lparr>app_name = PyStr ''Zeta Tool'', app_command = PyStr ''zeta64.exe /u''\<rparr>]"
proof -
  have a: "root_opens_or_is_absent apps_world_mixed HKEY_CURRENT_USER \<and>
      root_opens_or_is_absent apps_world_mixed HKEY_LOCAL_MACHINE"
    by code_simp
  have b: "hive_apps apps_world_mixed HKEY_CURRENT_USER =
     [\<lparr>app_name = PyStr ''Zeta Tool'', app_command = PyStr ''zeta.exe /u''\<rparr>,
      \<lparr>app_name = PyInt 7, app_command = PyStr ''seven.exe /u''\<rparr>]"
    by code_simp
  have c: "get_installed_apps apps_world_mixed = Inl TypeError"
    by code_simp
  have d: "get_installed_apps apps_world_numeric =
     Inr [\<lparr>app_name = PyInt 7, app_command = PyStr ''seven.exe /u''\<rparr>]"
    by code_simp
  have e: "get_installed_apps apps_world =
     Inr [\<lparr>app_name = PyStr ''Alpha'', app_command = PyStr ''alpha.exe''\<rparr>,
          \<lparr>app_name = PyStr ''Zeta Tool'', app_command = PyStr ''zeta.exe /u''\<rparr>,
          \<lparr>app_name = PyStr ''Zeta Tool'', app_command = PyStr ''zeta64.exe /u''\<rparr>]"
    by code_simp
  have f: "get_installed_apps apps_world_no_user_key =
     Inr [\<lparr>app_name = PyStr ''Alpha'', app_command = PyStr ''alpha.exe''\<rparr>,
          \<lparr>app_name = PyStr ''Zeta Tool'', app_command = PyStr ''zeta64.exe /u''\<rparr>]"
    by code_simp
  show ?thesis
    using a b c d e f by (intro conjI) simp_all
qed

section \<open>The claim about failures of a whole category\<close>

text \<open>
  Against claim C5 as the specification states it. On a machine where the matcher raises
  for the pattern of \<open>Clean Prefetch\<close>, the category \<open>Clean Windows Temp\<close> scans and
  cleans well on its own; yet a scan pass over both categories ends with the exception
  and no result for either, and a clean pass over both ends with the exception and
  leaves the \<open>Temp\<close> directory as it was. Nothing catches the failure at the boundary of
  the category, and the remaining category is not processed.
\<close>

theorem category_failure_not_contained_counterexample:
  "scan_location_size matcher_fails_world [windows_temp_pattern] = Inr (35, 3) \<and>
   scan_location_size matcher_fails_world [prefetch_pattern] = Inl ValueError \<and>
   scan_all_locations None matcher_fails_world two_categories = Inl ValueError \<and>
   fst (clean_thread (\<lambda>m. None) no_interference two_categories matcher_fails_world
          [''Clean Windows Temp'']) = clean_complete 3 35 \<and>
   fst (clean_thread (\<lambda>m. None) no_interference two_categories matcher_fails_world
          [''Clean Prefetch'', ''Clean Windows Temp'']) = clean_error ValueError \<and>
   path_exists (snd (clean_thread (\<lambda>m. None) no_interference two_categories
          matcher_fails_world [''Clean Prefetch'', ''Clean Windows Temp'']))
     [''C:'', ''Windows'', ''Temp'', ''a.log'']"
proof -
  have a: "scan_location_size matcher_fails_world [windows_temp_pattern] = Inr (35, 3)"
    by code_simp
  have b: "scan_location_size matcher_fails_world [prefetch_pattern] = Inl ValueError"
    by code_simp
  have c: "scan_all_locations None matcher_fails_world two_categories = Inl ValueError"
    by (simp add: scan_all_locations_def two_categories_def notify_def b)
  have d: "fst (clean_thread (\<lambda>m. None) no_interference two_categories matcher_fails_world
          [''Clean Windows Temp'']) = clean_complete 3 35"
    by code_simp
  have e: "fst (clean_thread (\<lambda>m. None) no_interference two_categories matcher_fails_world
          [''Clean Prefetch'', ''Clean Windows Temp'']) = clean_error ValueError"
    by code_simp
  have f: "path_exists (snd (clean_thread (\<lambda>m. None) no_interference two_categories
          matcher_fails_world [''Clean Prefetch'', ''Clean Windows Temp'']))
     [''C:'', ''Windows'', ''Temp'', ''a.log'']"
    by code_simp
  show ?thesis
    using a b c d e f by simp
qed

lemma scan_firefox_cache_total: "\<exists>a. scan_firefox_cache w d = Inr a"
  by (cases "os_listdir w d") (auto simp: scan_firefox_cache_listed scan_firefox_cache_unlisted)

lemma scan_matches_total: "\<exists>a'. scan_matches w a ms = Inr a'"
proof (induction ms arbitrary: a)
  case Nil
  show ?case by simp
next
  case (Cons m ms)
  obtain sc where "scan_directory_safely w (path_of m) = Inr sc"
    using scan_directory_safely_total by blast
  then show ?case
    using Cons by simp
qed

lemma scan_patterns_Inl:
  "scan_patterns w a pats = Inl e \<Longrightarrow> \<exists>pat \<in> set pats. glob_glob w pat = Inl e"
proof (induction pats arbitrary: a)
  case Nil
  then show ?case by simp
next
  case (Cons pat pats)
  show ?case
  proof (cases "pat = ''REGISTRY_CLEANUP''")
    case True
    then show ?thesis using Cons by auto
  next
    case rc: False
    show ?thesis
    proof (cases "is_firefox_profiles pat")
      case True
      obtain sc where "scan_firefox_cache w (path_of pat) = Inr sc"
        using scan_firefox_cache_total by blast
      then show ?thesis using rc True Cons by auto
    next
      case False
      show ?thesis
      proof (cases "glob_glob w pat")
        case (Inl e')
        then show ?thesis using rc False Cons.prems by simp
      next
        case (Inr ms)
        obtain a' where "scan_matches w a ms = Inr a'"
          using scan_matches_total by blast
        then show ?thesis using rc False Inr Cons by auto
      qed
    qed
  qed
qed

lemma scan_categories_append:
  "scan_categories cb w t i res (pre @ post) =
     (case scan_categories cb w t i res pre of
        Inl e \<Rightarrow> Inl e
      | Inr res' \<Rightarrow> scan_categories cb w t (i + length pre) res' post)"
  by (induction pre arbitrary: i res) (auto split: option.splits sum.splits)

lemma scan_categories_prefix_ok:
  "\<forall>j < length pre. notify cb (real (i + j) / real t) (''Scanning: '' @ fst (pre ! j)) = None \<and>
      (\<exists>sc. scan_location_size w (snd (pre ! j)) = Inr sc) \<Longrightarrow>
   \<exists>res'. scan_categories cb w t i res pre = Inr res'"
proof (induction pre arbitrary: i res)
  case Nil
  show ?case by simp
next
  case (Cons c pre)
  have h0: "notify cb (real i / real t) (''Scanning: '' @ fst c) = None"
    and "\<exists>sc. scan_location_size w (snd c) = Inr sc"
    using Cons.prems [rule_format, of 0] by simp_all
  then obtain sc where sc: "scan_location_size w (snd c) = Inr sc"
    by blast
  have nx: "\<forall>j < length pre.
      notify cb (real (Suc i + j) / real t) (''Scanning: '' @ fst (pre ! j)) = None \<and>
      (\<exists>sc. scan_location_size w (snd (pre ! j)) = Inr sc)"
  proof (intro allI impI)
    fix j assume "j < length pre"
    then show "notify cb (real (Suc i + j) / real t) (''Scanning: '' @ fst (pre ! j)) = None \<and>
        (\<exists>sc. scan_location_size w (snd (pre ! j)) = Inr sc)"
      using Cons.prems [rule_format, of "Suc j"] by simp
  qed
  obtain res' where "scan_categories cb w t (Suc i)
      (res(fst c \<mapsto> \<lparr>entry_size = fst sc, entry_count = snd sc,
         entry_size_mb = real_of_int (fst sc) / (1024 * 1024)\<rparr>)) pre = Inr res'"
    using Cons.IH [OF nx] by blast
  then show ?case
    using h0 sc by simp
qed

lemma scan_categories_Inr_indexed:
  "scan_categories cb w t i res cat = Inr results \<Longrightarrow>
   (\<forall>j < length cat.
      notify cb (real (i + j) / real t) (''Scanning: '' @ fst (cat ! j)) = None \<and>
      (\<exists>sc. scan_location_size w (snd (cat ! j)) = Inr sc) \<and>
      results (fst (cat ! j)) \<noteq> None) \<and>
   (\<forall>k. res k \<noteq> None \<longrightarrow> results k \<noteq> None)"
proof (induction cat arbitrary: i res)
  case Nil
  then show ?case by simp
next
  case (Cons c cat)
  from Cons.prems obtain sc where n0: "notify cb (real i / real t) (''Scanning: '' @ fst c) = None"
    and sc: "scan_location_size w (snd c) = Inr sc"
    and r: "scan_categories cb w t (Suc i)
      (res(fst c \<mapsto> \<lparr>entry_size = fst sc, entry_count = snd sc,
         entry_size_mb = real_of_int (fst sc) / (1024 * 1024)\<rparr>)) cat = Inr results"
    by (auto split: option.splits sum.splits)
  note ih = Cons.IH [OF r]
  have keep: "\<forall>k. res k \<noteq> None \<longrightarrow> results k \<noteq> None"
    using ih by simp
  have here: "results (fst c) \<noteq> None"
    using ih by simp
  have "\<forall>j < length (c # cat).
      notify cb (real (i + j) / real t) (''Scanning: '' @ fst ((c # cat) ! j)) = None \<and>
      (\<exists>sc. scan_location_size w (snd ((c # cat) ! j)) = Inr sc) \<and>
      results (fst ((c # cat) ! j)) \<noteq> None"
  proof (intro allI impI)
    fix j assume j: "j < length (c # cat)"
    show "notify cb (real (i + j) / real t) (''Scanning: '' @ fst ((c # cat) ! j)) = None \<and>
      (\<exists>sc. scan_location_size w (snd ((c # cat) ! j)) = Inr sc) \<and>
      results (fst ((c # cat) ! j)) \<noteq> None"
    proof (cases j)
      case 0
      then show ?thesis using n0 sc here by simp
    next
      case (Suc j')
      then have "j' < length cat" using j by simp
      then show ?thesis using ih Suc by simp
    qed
  qed
  then show ?case
    using keep by blast
qed

lemma clean_patterns_append:
  "clean_patterns env w a (xs @ ys) =
     (case clean_patterns env w a xs of
        (Inl e, w') \<Rightarrow> (Inl e, w')
      | (Inr a', w') \<Rightarrow> clean_patterns env w' a' ys)"
  by (induction xs arbitrary: w a) (auto split: prod.splits sum.splits)

lemma clean_items_append:
  "clean_items us env cat w a (xs @ ys) =
     (case clean_items us env cat w a xs of
        (Inl e, w') \<Rightarrow> (Inl e, w')
      | (Inr a', w') \<Rightarrow> clean_items us env cat w' a' ys)"
  by (induction xs arbitrary: w a) (auto split: prod.splits sum.splits option.splits)

lemma clean_directory_safely_returns:
  "\<exists>r w'. clean_directory_safely env w p = (Inr r, w')"
proof -
  obtain b where b: "scan_directory_safely w p = Inr b"
    using scan_directory_safely_total by blast
  obtain a where a: "scan_directory_safely (env 2 (try_delete env (env 0 w) p)) p = Inr a"
    using scan_directory_safely_total by blast
  show ?thesis
    using a b by (simp add: clean_directory_safely_def Let_def)
qed

lemma clean_matches_returns: "\<exists>r w'. clean_matches env w a ms = (Inr r, w')"
proof (induction ms arbitrary: w a)
  case Nil
  show ?case by simp
next
  case (Cons m ms)
  obtain r w1 where "clean_directory_safely env w (path_of m) = (Inr r, w1)"
    using clean_directory_safely_returns by blast
  then show ?case
    using Cons by simp
qed

lemma clean_profiles_returns: "\<exists>r w'. clean_profiles env w d a ps = (Inr r, w')"
proof (induction ps arbitrary: w a)
  case Nil
  show ?case by simp
next
  case (Cons profile ps)
  obtain r w1 where "clean_directory_safely env w (d @ [profile, ''cache2'']) = (Inr r, w1)"
    using clean_directory_safely_returns by blast
  then show ?case
    using Cons by (simp add: Let_def)
qed

lemma clean_firefox_cache_returns: "\<exists>r w'. clean_firefox_cache env w d = (Inr r, w')"
proof (cases "path_exists w d")
  case False
  then show ?thesis
    by (simp add: clean_firefox_cache_def clean_firefox_try_def)
next
  case True
  show ?thesis
  proof (cases "os_listdir w d")
    case (Inl e)
    then show ?thesis
      using True os_listdir_OSError [OF Inl]
      by (simp add: clean_firefox_cache_def clean_firefox_try_def)
  next
    case (Inr profiles)
    obtain r w1 where "clean_profiles env w d (0, 0) profiles = (Inr r, w1)"
      using clean_profiles_returns by blast
    then show ?thesis
      using True Inr by (simp add: clean_firefox_cache_def clean_firefox_try_def)
  qed
qed

lemma clean_pattern_Inl:
  "clean_pattern env w pat = (Inl e, w') \<Longrightarrow> glob_glob w pat = Inl e \<and> w' = w"
proof -
  assume a: "clean_pattern env w pat = (Inl e, w')"
  show ?thesis
  proof (cases "pat = ''REGISTRY_CLEANUP''")
    case True
    then show ?thesis using a by (simp add: clean_pattern_def split: prod.splits)
  next
    case rc: False
    show ?thesis
    proof (cases "is_firefox_profiles pat")
      case True
      obtain r w1 where "clean_firefox_cache env w (path_of pat) = (Inr r, w1)"
        using clean_firefox_cache_returns by blast
      then show ?thesis using a rc True by (simp add: clean_pattern_def)
    next
      case False
      show ?thesis
      proof (cases "glob_glob w pat")
        case (Inl e')
        then show ?thesis using a rc False by (simp add: clean_pattern_def)
      next
        case (Inr ms)
        obtain r w1 where "clean_matches env w (0, 0) ms = (Inr r, w1)"
          using clean_matches_returns by blast
        then show ?thesis using a rc False Inr by (simp add: clean_pattern_def)
      qed
    qed
  qed
qed

lemma clean_patterns_Inl:
  "clean_patterns env w a pats = (Inl e, w') \<Longrightarrow>
   \<exists>pat \<in> set pats. glob_glob w' pat = Inl e"
proof (induction pats arbitrary: w a)
  case Nil
  then show ?case by simp
next
  case (Cons pat pats)
  obtain x w1 where p: "clean_pattern env w pat = (x, w1)"
    by (cases "clean_pattern env w pat")
  show ?case
  proof (cases x)
    case (Inl e')
    then have "glob_glob w pat = Inl e'" "w1 = w"
      using clean_pattern_Inl p by blast+
    moreover have "e' = e \<and> w' = w1"
      using Cons.prems p Inl by simp
    ultimately show ?thesis by simp
  next
    case (Inr df)
    then have "clean_patterns env w1 (fst a + fst df, snd a + snd df) pats = (Inl e, w')"
      using Cons.prems p by simp
    then show ?thesis
      using Cons.IH by auto
  qed
qed

lemma scan_pass_first_failure:
  assumes "\<forall>j < length pre.
      notify cb (real j / real (length (pre @ c # post))) (''Scanning: '' @ fst (pre ! j)) = None \<and>
      (\<exists>sc. scan_location_size w (snd (pre ! j)) = Inr sc)"
    and "notify cb (real (length pre) / real (length (pre @ c # post)))
        (''Scanning: '' @ fst c) = Some e \<or>
      (notify cb (real (length pre) / real (length (pre @ c # post)))
        (''Scanning: '' @ fst c) = None \<and> scan_location_size w (snd c) = Inl e)"
  shows "scan_all_locations cb w (pre @ c # post) = Inl e"
proof -
  let ?t = "length (pre @ c # post)"
  have "\<forall>j < length pre.
      notify cb (real (0 + j) / real ?t) (''Scanning: '' @ fst (pre ! j)) = None \<and>
      (\<exists>sc. scan_location_size w (snd (pre ! j)) = Inr sc)"
    using assms(1) by simp
  then obtain res' where r: "scan_categories cb w ?t 0 Map.empty pre = Inr res'"
    using scan_categories_prefix_ok [of pre cb 0 ?t w Map.empty] by blast
  have "scan_categories cb w ?t (0 + length pre) res' (c # post) = Inl e"
    using assms(2) by auto
  then have "scan_categories cb w ?t 0 Map.empty (pre @ c # post) = Inl e"
    using r by (simp add: scan_categories_append)
  then show ?thesis
    by (simp add: scan_all_locations_def)
qed

lemma scan_pass_Inr:
  assumes "scan_all_locations cb w cats = Inr results"
  shows "(\<forall>i < length cats.
      notify cb (real i / real (length cats)) (''Scanning: '' @ fst (cats ! i)) = None \<and>
      (\<exists>sc. scan_location_size w (snd (cats ! i)) = Inr sc) \<and>
      results (fst (cats ! i)) \<noteq> None) \<and>
    notify cb 1 ''Scan complete!'' = None"
proof -
  have r: "scan_categories cb w (length cats) 0 Map.empty cats = Inr results"
    and n: "notify cb 1 ''Scan complete!'' = None"
    using assms by (auto simp: scan_all_locations_def split: sum.splits option.splits)
  have "\<forall>j < length cats.
      notify cb (real (0 + j) / real (length cats)) (''Scanning: '' @ fst (cats ! j)) = None \<and>
      (\<exists>sc. scan_location_size w (snd (cats ! j)) = Inr sc) \<and>
      results (fst (cats ! j)) \<noteq> None"
    using scan_categories_Inr_indexed [OF r] by blast
  then show ?thesis
    using n by simp
qed

lemma scan_location_first_failure:
  assumes "scan_location_size w pre = Inr a" "glob_glob w pat = Inl e"
    "pat \<noteq> ''REGISTRY_CLEANUP''" "\<not> is_firefox_profiles pat"
  shows "scan_location_size w (pre @ pat # post) = Inl e"
  using assms by (simp add: scan_location_size_def scan_patterns_append)

lemma clean_location_first_failure:
  assumes "clean_location env w pre = (Inr a, w1)" "glob_glob w1 pat = Inl e"
    "pat \<noteq> ''REGISTRY_CLEANUP''" "\<not> is_firefox_profiles pat"
  shows "clean_location env w (pre @ pat # post) = (Inl e, w1)"
  using assms by (simp add: clean_location_def clean_patterns_append clean_pattern_def)

lemma clean_pass_first_failure:
  assumes "clean_items us env cat w (0, 0) pre = (Inr a, w1)"
    and "(us (''Cleaning: '' @ item) = Some e \<and> w2 = w1) \<or>
      (us (''Cleaning: '' @ item) = None \<and> map_of cat item = Some paths \<and>
       clean_location env w1 paths = (Inl e, w2))"
  shows "clean_thread us env cat w (pre @ item # post) = (clean_error e, w2)"
proof -
  have "clean_items us env cat w1 a (item # post) = (Inl e, w2)"
    using assms(2) by auto
  then have "clean_items us env cat w (0, 0) (pre @ item # post) = (Inl e, w2)"
    using assms(1) by (simp add: clean_items_append)
  then show ?thesis
    by (simp add: clean_thread_def)
qed

lemma clean_pass_complete:
  assumes "clean_thread us env cat w (pre @ item # post) = (clean_complete d f, w')"
  shows "\<exists>a w1 paths df w2. clean_items us env cat w (0, 0) pre = (Inr a, w1) \<and>
    us (''Cleaning: '' @ item) = None \<and> map_of cat item = Some paths \<and>
    clean_location env w1 paths = (Inr df, w2)"
proof -
  have all: "clean_items us env cat w (0, 0) (pre @ item # post) = (Inr (d, f), w')"
    using assms by (auto simp: clean_thread_def split: prod.splits sum.splits)
  obtain x w1 where p: "clean_items us env cat w (0, 0) pre = (x, w1)"
    by (cases "clean_items us env cat w (0, 0) pre")
  show ?thesis
  proof (cases x)
    case (Inl e)
    then show ?thesis
      using all p by (simp add: clean_items_append)
  next
    case (Inr a)
    then have rest: "clean_items us env cat w1 a (item # post) = (Inr (d, f), w')"
      using all p by (simp add: clean_items_append)
    then obtain paths where u: "us (''Cleaning: '' @ item) = None"
      and m: "map_of cat item = Some paths"
      by (auto split: option.splits)
    obtain y w2 where c: "clean_location env w1 paths = (y, w2)"
      by (cases "clean_location env w1 paths")
    then obtain df where "y = Inr df"
      using rest u m by (cases y) simp_all
    then show ?thesis
      using p Inr u m c by blast
  qed
qed

text \<open>
  Claim C5, amended. An unexpected failure in the scan or the clean of a category (an
  exception of the pattern matcher or of the progress callback) is not caught at the
  boundary of the category, wherever in the pass it happens. \<open>scan_location_size\<close> and
  \<open>clean_location\<close> end with the exception of the first pattern whose matching raises,
  after any number of patterns that went well, and they end with an exception only if
  the matching of one of their patterns raised it. \<open>scan_all_locations\<close> ends with the
  exception of the first category whose announcement or whose scan raises, after any
  number of categories that went well, and without a result for any category; a clean
  pass ends likewise with the exception of the first selected item whose announcement or
  whose \<open>clean_location\<close> raises, in the state that item left. The caller of the pass
  receives the exception as the failure of the pass (\<open>scan_error\<close>, \<open>clean_error\<close>), and
  only then. A failure is never turned into a zero result: a scan pass returns results
  only when every announcement and the scan of every category returned, and then it has
  an entry for every category; a clean pass completes only when, for every selected item,
  the items before it were cleaned, its announcement returned, the item is in the catalog
  and its \<open>clean_location\<close> returned.
\<close>

theorem pass_failure_propagates:
  "(scan_all_locations cb w cats = Inr results \<longrightarrow>
      (\<forall>i < length cats.
         notify cb (real i / real (length cats)) (''Scanning: '' @ fst (cats ! i)) = None \<and>
         (\<exists>sc. scan_location_size w (snd (cats ! i)) = Inr sc) \<and>
         results (fst (cats ! i)) \<noteq> None) \<and>
      notify cb 1 ''Scan complete!'' = None) \<and>
   ((\<forall>j < length pre.
       notify cb (real j / real (length (pre @ c # post))) (''Scanning: '' @ fst (pre ! j)) = None \<and>
       (\<exists>sc. scan_location_size w (snd (pre ! j)) = Inr sc)) \<and>
    (notify cb (real (length pre) / real (length (pre @ c # post)))
        (''Scanning: '' @ fst c) = Some e \<or>
     (notify cb (real (length pre) / real (length (pre @ c # post)))
        (''Scanning: '' @ fst c) = None \<and> scan_location_size w (snd c) = Inl e)) \<longrightarrow>
      scan_all_locations cb w (pre @ c # post) = Inl e) \<and>
   ((scan_thread update_status w cats = scan_error e) =
      (scan_all_locations (Some (\<lambda>p m. update_status m)) w cats = Inl e)) \<and>
   (scan_location_size w ps = Inr a \<and> glob_glob w pat = Inl e \<and>
    pat \<noteq> ''REGISTRY_CLEANUP'' \<and> \<not> is_firefox_profiles pat \<longrightarrow>
      scan_location_size w (ps @ pat # qs) = Inl e) \<and>
   (scan_location_size w ps = Inl e \<longrightarrow> (\<exists>pat \<in> set ps. glob_glob w pat = Inl e)) \<and>
   (clean_location env w ps = (Inr a, wa) \<and> glob_glob wa pat = Inl e \<and>
    pat \<noteq> ''REGISTRY_CLEANUP'' \<and> \<not> is_firefox_profiles pat \<longrightarrow>
      clean_location env w (ps @ pat # qs) = (Inl e, wa)) \<and>
   (clean_location env w ps = (Inl e, wa) \<longrightarrow> (\<exists>pat \<in> set ps. glob_glob wa pat = Inl e)) \<and>
   (clean_items us env cat w (0, 0) items = (Inr a, wa) \<and>
    ((us (''Cleaning: '' @ item) = Some e \<and> wb = wa) \<or>
     (us (''Cleaning: '' @ item) = None \<and> map_of cat item = Some paths \<and>
      clean_location env wa paths = (Inl e, wb))) \<longrightarrow>
      clean_thread us env cat w (items @ item # rest) = (clean_error e, wb)) \<and>
   (clean_thread us env cat w (items @ item # rest) = (clean_complete d f, w') \<longrightarrow>
      (\<exists>a0 w0 paths0 df wc. clean_items us env cat w (0, 0) items = (Inr a0, w0) \<and>
         us (''Cleaning: '' @ item) = None \<and> map_of cat item = Some paths0 \<and>
         clean_location env w0 paths0 = (Inr df, wc)))"
proof -
  have p1: "scan_all_locations cb w cats = Inr results \<longrightarrow>
      (\<forall>i < length cats.
         notify cb (real i / real (length cats)) (''Scanning: '' @ fst (cats ! i)) = None \<and>
         (\<exists>sc. scan_location_size w (snd (cats ! i)) = Inr sc) \<and>
         results (fst (cats ! i)) \<noteq> None) \<and>
      notify cb 1 ''Scan complete!'' = None"
    using scan_pass_Inr by blast
  have p2: "(\<forall>j < length pre.
       notify cb (real j / real (length (pre @ c # post))) (''Scanning: '' @ fst (pre ! j)) = None \<and>
       (\<exists>sc. scan_location_size w (snd (pre ! j)) = Inr sc)) \<and>
    (notify cb (real (length pre) / real (length (pre @ c # post)))
        (''Scanning: '' @ fst c) = Some e \<or>
     (notify cb (real (length pre) / real (length (pre @ c # post)))
        (''Scanning: '' @ fst c) = None \<and> scan_location_size w (snd c) = Inl e)) \<longrightarrow>
      scan_all_locations cb w (pre @ c # post) = Inl e"
    using scan_pass_first_failure [of pre cb c post w e] by blast
  have p3: "(scan_thread update_status w cats = scan_error e) =
      (scan_all_locations (Some (\<lambda>p m. update_status m)) w cats = Inl e)"
    by (cases "scan_all_locations (Some (\<lambda>p m. update_status m)) w cats")
      (simp_all add: scan_thread_def)
  have p4: "scan_location_size w ps = Inr a \<and> glob_glob w pat = Inl e \<and>
    pat \<noteq> ''REGISTRY_CLEANUP'' \<and> \<not> is_firefox_profiles pat \<longrightarrow>
      scan_location_size w (ps @ pat # qs) = Inl e"
    using scan_location_first_failure by blast
  have p5: "scan_location_size w ps = Inl e \<longrightarrow> (\<exists>pat \<in> set ps. glob_glob w pat = Inl e)"
    using scan_patterns_Inl by (simp add: scan_location_size_def)
  have p6: "clean_location env w ps = (Inr a, wa) \<and> glob_glob wa pat = Inl e \<and>
    pat \<noteq> ''REGISTRY_CLEANUP'' \<and> \<not> is_firefox_profiles pat \<longrightarrow>
      clean_location env w (ps @ pat # qs) = (Inl e, wa)"
    using clean_location_first_failure by blast
  have p7: "clean_location env w ps = (Inl e, wa) \<longrightarrow> (\<exists>pat \<in> set ps. glob_glob wa pat = Inl e)"
    using clean_patterns_Inl by (simp add: clean_location_def)
  have p8: "clean_items us env cat w (0, 0) items = (Inr a, wa) \<and>
    ((us (''Cleaning: '' @ item) = Some e \<and> wb = wa) \<or>
     (us (''Cleaning: '' @ item) = None \<and> map_of cat item = Some paths \<and>
      clean_location env wa paths = (Inl e, wb))) \<longrightarrow>
      clean_thread us env cat w (items @ item # rest) = (clean_error e, wb)"
    using clean_pass_first_failure [of us env cat w items a wa item e wb paths rest] by blast
  have p9: "clean_thread us env cat w (items @ item # rest) = (clean_complete d f, w') \<longrightarrow>
      (\<exists>a0 w0 paths0 df wc. clean_items us env cat w (0, 0) items = (Inr a0, w0) \<and>
         us (''Cleaning: '' @ item) = None \<and> map_of cat item = Some paths0 \<and>
         clean_location env w0 paths0 = (Inr df, wc))"
    using clean_pass_complete by blast
  show ?thesis
    using p1 p2 p3 p4 p5 p6 p7 p8 p9 by (intro conjI)
qed

theorem pass_failure_propagates_witness:
  "(\<exists>results. scan_all_locations None (quiet_world windows_tree) two_categories = Inr results \<and>
      results ''Clean Prefetch'' \<noteq> None \<and> results ''Clean Windows Temp'' \<noteq> None) \<and>
   scan_all_locations (Some callback_fails) (quiet_world windows_tree)
     ([(''Clean Prefetch'', [prefetch_pattern])] @
      (''Clean Windows Temp'', [windows_temp_pattern]) # []) = Inl RuntimeError \<and>
   scan_all_locations (Some (\<lambda>p m. None)) matcher_fails_world
     ([(''Clean Windows Temp'', [windows_temp_pattern])] @
      (''Clean Prefetch'', [prefetch_pattern]) # []) = Inl ValueError \<and>
   scan_thread (\<lambda>m. None) matcher_fails_world
     ([(''Clean Windows Temp'', [windows_temp_pattern])] @
      (''Clean Prefetch'', [prefetch_pattern]) # []) = scan_error ValueError \<and>
   scan_location_size matcher_fails_world
     ([windows_temp_pattern] @ prefetch_pattern # [windows_temp_pattern]) = Inl ValueError \<and>
   (\<exists>pat. pat \<in> set ([windows_temp_pattern] @ prefetch_pattern # [windows_temp_pattern]) \<and>
      glob_glob matcher_fails_world pat = Inl ValueError) \<and>
   clean_location no_interference matcher_fails_world
     ([windows_temp_pattern] @ prefetch_pattern # [windows_temp_pattern]) =
     (Inl ValueError,
      snd (clean_location no_interference matcher_fails_world [windows_temp_pattern])) \<and>
   (\<exists>pat. pat \<in> set ([windows_temp_pattern] @ prefetch_pattern # [windows_temp_pattern]) \<and>
      glob_glob (snd (clean_location no_interference matcher_fails_world [windows_temp_pattern]))
        pat = Inl ValueError) \<and>
   clean_thread (\<lambda>m. None) no_interference two_categories matcher_fails_world
     ([''Clean Windows Temp''] @ ''Clean Prefetch'' # []) =
     (clean_error ValueError,
      snd (clean_items (\<lambda>m. None) no_interference two_categories matcher_fails_world (0, 0)
             [''Clean Windows Temp''])) \<and>
   clean_thread (\<lambda>m. if m = ''Cleaning: Clean Prefetch'' then Some RuntimeError else None)
       no_interference two_categories (quiet_world windows_tree)
     ([''Clean Windows Temp''] @ ''Clean Prefetch'' # []) =
     (clean_error RuntimeError,
      snd (clean_items (\<lambda>m. if m = ''Cleaning: Clean Prefetch'' then Some RuntimeError else None)
             no_interference two_categories (quiet_world windows_tree) (0, 0)
             [''Clean Windows Temp''])) \<and>
   (\<exists>a0 w0 paths0 df w3.
      clean_items (\<lambda>m. None) no_interference two_categories (quiet_world windows_tree) (0, 0)
        [''Clean Prefetch''] = (Inr a0, w0) \<and>
      map_of two_categories ''Clean Windows Temp'' = Some paths0 \<and>
      clean_location no_interference w0 paths0 = (Inr df, w3))"
proof -
  let ?q = "quiet_world windows_tree"
  let ?m = matcher_fails_world
  let ?temp = "(''Clean Windows Temp'', [windows_temp_pattern])"
  let ?pf = "(''Clean Prefetch'', [prefetch_pattern])"
  let ?us = "\<lambda>m. if m = ''Cleaning: Clean Prefetch'' then Some RuntimeError else None"
  have s1: "scan_location_size ?q [prefetch_pattern] = Inr (50, 1)"
    by code_simp
  have s2: "scan_location_size ?q [windows_temp_pattern] = Inr (35, 3)"
    by code_simp
  have "\<exists>results. scan_all_locations None ?q two_categories = Inr results"
    by (simp add: scan_all_locations_def two_categories_def notify_def s1 s2)
  then obtain results where r: "scan_all_locations None ?q two_categories = Inr results"
    by blast
  have every: "\<forall>i < length two_categories. results (fst (two_categories ! i)) \<noteq> None"
    using pass_failure_propagates [where cb = None and w = ?q and cats = two_categories
        and results = results, THEN conjunct1] r
    by blast
  have c1: "results ''Clean Prefetch'' \<noteq> None \<and> results ''Clean Windows Temp'' \<noteq> None"
    using every [rule_format, of 0] every [rule_format, of 1]
    by (simp add: two_categories_def)
  have h2: "(\<forall>j < length [?pf].
       notify (Some callback_fails) (real j / real (length ([?pf] @ ?temp # [])))
         (''Scanning: '' @ fst ([?pf] ! j)) = None \<and>
       (\<exists>sc. scan_location_size ?q (snd ([?pf] ! j)) = Inr sc)) \<and>
     (notify (Some callback_fails) (real (length [?pf]) / real (length ([?pf] @ ?temp # [])))
        (''Scanning: '' @ fst ?temp) = Some RuntimeError \<or>
      (notify (Some callback_fails) (real (length [?pf]) / real (length ([?pf] @ ?temp # [])))
        (''Scanning: '' @ fst ?temp) = None \<and>
       scan_location_size ?q (snd ?temp) = Inl RuntimeError))"
    by (simp add: notify_def callback_fails_def s1)
  have c2: "scan_all_locations (Some callback_fails) ?q ([?pf] @ ?temp # []) = Inl RuntimeError"
    by (rule pass_failure_propagates [where cb = "Some callback_fails" and w = ?q
        and pre = "[?pf]" and c = ?temp and post = "[]" and e = RuntimeError,
        THEN conjunct2, THEN conjunct1, THEN mp, OF h2])
  have t: "scan_location_size ?m [windows_temp_pattern] = Inr (35, 3)"
    by code_simp
  have f: "scan_location_size ?m [prefetch_pattern] = Inl ValueError"
    by code_simp
  have h3: "(\<forall>j < length [?temp].
       notify (Some (\<lambda>p m. None)) (real j / real (length ([?temp] @ ?pf # [])))
         (''Scanning: '' @ fst ([?temp] ! j)) = None \<and>
       (\<exists>sc. scan_location_size ?m (snd ([?temp] ! j)) = Inr sc)) \<and>
     (notify (Some (\<lambda>p m. None)) (real (length [?temp]) / real (length ([?temp] @ ?pf # [])))
        (''Scanning: '' @ fst ?pf) = Some ValueError \<or>
      (notify (Some (\<lambda>p m. None)) (real (length [?temp]) / real (length ([?temp] @ ?pf # [])))
        (''Scanning: '' @ fst ?pf) = None \<and>
       scan_location_size ?m (snd ?pf) = Inl ValueError))"
    by (simp add: notify_def t f)
  have c3: "scan_all_locations (Some (\<lambda>p m. None)) ?m ([?temp] @ ?pf # []) = Inl ValueError"
    by (rule pass_failure_propagates [where cb = "Some (\<lambda>p m. None)" and w = ?m
        and pre = "[?temp]" and c = ?pf and post = "[]" and e = ValueError,
        THEN conjunct2, THEN conjunct1, THEN mp, OF h3])
  have c4: "scan_thread (\<lambda>m. None) ?m ([?temp] @ ?pf # []) = scan_error ValueError"
    using pass_failure_propagates [where update_status = "\<lambda>m. None" and w = ?m
        and cats = "[?temp] @ ?pf # []" and e = ValueError,
        THEN conjunct2, THEN conjunct2, THEN conjunct1] c3
    by blast
  have g: "glob_glob ?m prefetch_pattern = Inl ValueError \<and>
      prefetch_pattern \<noteq> ''REGISTRY_CLEANUP'' \<and> \<not> is_firefox_profiles prefetch_pattern"
    by code_simp
  have c5: "scan_location_size ?m ([windows_temp_pattern] @ prefetch_pattern #
      [windows_temp_pattern]) = Inl ValueError"
    using pass_failure_propagates [where w = ?m and ps = "[windows_temp_pattern]"
        and a = "(35, 3)" and pat = prefetch_pattern and e = ValueError
        and qs = "[windows_temp_pattern]",
        THEN conjunct2, THEN conjunct2, THEN conjunct2, THEN conjunct1] t g
    by blast
  have c6: "\<exists>pat. pat \<in> set ([windows_temp_pattern] @ prefetch_pattern # [windows_temp_pattern]) \<and>
      glob_glob ?m pat = Inl ValueError"
    using pass_failure_propagates [where w = ?m
        and ps = "[windows_temp_pattern] @ prefetch_pattern # [windows_temp_pattern]"
        and e = ValueError,
        THEN conjunct2, THEN conjunct2, THEN conjunct2, THEN conjunct2, THEN conjunct1] c5
    by blast
  let ?w1 = "snd (clean_location no_interference ?m [windows_temp_pattern])"
  have k1: "fst (clean_location no_interference ?m [windows_temp_pattern]) = Inr (3, 35)"
    by code_simp
  have k: "clean_location no_interference ?m [windows_temp_pattern] = (Inr (3, 35), ?w1)"
    using k1 by (simp add: prod_eq_iff)
  have g1: "glob_glob ?w1 prefetch_pattern = Inl ValueError"
    by code_simp
  have c7: "clean_location no_interference ?m
      ([windows_temp_pattern] @ prefetch_pattern # [windows_temp_pattern]) = (Inl ValueError, ?w1)"
    using pass_failure_propagates [where w = ?m and env = no_interference
        and ps = "[windows_temp_pattern]" and a = "(3, 35)" and wa = ?w1
        and pat = prefetch_pattern and e = ValueError and qs = "[windows_temp_pattern]",
        THEN conjunct2, THEN conjunct2, THEN conjunct2, THEN conjunct2, THEN conjunct2,
        THEN conjunct1] k g g1
    by blast
  have c8: "\<exists>pat. pat \<in> set ([windows_temp_pattern] @ prefetch_pattern # [windows_temp_pattern]) \<and>
      glob_glob ?w1 pat = Inl ValueError"
    using pass_failure_propagates [where w = ?m and env = no_interference
        and ps = "[windows_temp_pattern] @ prefetch_pattern # [windows_temp_pattern]"
        and wa = ?w1 and e = ValueError,
        THEN conjunct2, THEN conjunct2, THEN conjunct2, THEN conjunct2, THEN conjunct2,
        THEN conjunct2, THEN conjunct1] c7
    by blast
  let ?w2 = "snd (clean_items (\<lambda>m. None) no_interference two_categories ?m (0, 0)
      [''Clean Windows Temp''])"
  have i1: "fst (clean_items (\<lambda>m. None) no_interference two_categories ?m (0, 0)
      [''Clean Windows Temp'']) = Inr (3, 35)"
    by code_simp
  have i: "clean_items (\<lambda>m. None) no_interference two_categories ?m (0, 0)
      [''Clean Windows Temp''] = (Inr (3, 35), ?w2)"
    using i1 by (simp add: prod_eq_iff)
  have mp: "map_of two_categories ''Clean Prefetch'' = Some [prefetch_pattern]"
    by (simp add: two_categories_def)
  have g2: "glob_glob ?w2 prefetch_pattern = Inl ValueError"
    by code_simp
  have l: "clean_location no_interference ?w2 [prefetch_pattern] = (Inl ValueError, ?w2)"
    using g2 g by (simp add: clean_location_def clean_pattern_def)
  have c9: "clean_thread (\<lambda>m. None) no_interference two_categories ?m
      ([''Clean Windows Temp''] @ ''Clean Prefetch'' # []) = (clean_error ValueError, ?w2)"
    using pass_failure_propagates [where us = "\<lambda>m. None" and env = no_interference
        and cat = two_categories and w = ?m and items = "[''Clean Windows Temp'']"
        and a = "(3, 35)" and wa = ?w2 and item = "''Clean Prefetch''" and e = ValueError
        and wb = ?w2 and paths = "[prefetch_pattern]" and rest = "[]",
        THEN conjunct2, THEN conjunct2, THEN conjunct2, THEN conjunct2, THEN conjunct2,
        THEN conjunct2, THEN conjunct2, THEN conjunct1] i mp l
    by simp
  let ?w3 = "snd (clean_items ?us no_interference two_categories ?q (0, 0)
      [''Clean Windows Temp''])"
  have j1: "fst (clean_items ?us no_interference two_categories ?q (0, 0)
      [''Clean Windows Temp'']) = Inr (3, 35)"
    by code_simp
  have j: "clean_items ?us no_interference two_categories ?q (0, 0)
      [''Clean Windows Temp''] = (Inr (3, 35), ?w3)"
    using j1 by (simp add: prod_eq_iff)
  have c10: "clean_thread ?us no_interference two_categories ?q
      ([''Clean Windows Temp''] @ ''Clean Prefetch'' # []) = (clean_error RuntimeError, ?w3)"
    using pass_failure_propagates [where us = ?us and env = no_interference
        and cat = two_categories and w = ?q and items = "[''Clean Windows Temp'']"
        and a = "(3, 35)" and wa = ?w3 and item = "''Clean Prefetch''" and e = RuntimeError
        and wb = ?w3 and rest = "[]",
        THEN conjunct2, THEN conjunct2, THEN conjunct2, THEN conjunct2, THEN conjunct2,
        THEN conjunct2, THEN conjunct2, THEN conjunct1] j
    by simp
  let ?w4 = "snd (clean_thread (\<lambda>m. None) no_interference two_categories ?q
      ([''Clean Prefetch''] @ ''Clean Windows Temp'' # []))"
  have d1: "fst (clean_thread (\<lambda>m. None) no_interference two_categories ?q
      ([''Clean Prefetch''] @ ''Clean Windows Temp'' # [])) = clean_complete 4 85"
    by code_simp
  have d: "clean_thread (\<lambda>m. None) no_interference two_categories ?q
      ([''Clean Prefetch''] @ ''Clean Windows Temp'' # []) = (clean_complete 4 85, ?w4)"
    using d1 by (simp add: prod_eq_iff)
  have c11: "\<exists>a0 w0 paths0 df w3.
      clean_items (\<lambda>m. None) no_interference two_categories ?q (0, 0)
        [''Clean Prefetch''] = (Inr a0, w0) \<and>
      map_of two_categories ''Clean Windows Temp'' = Some paths0 \<and>
      clean_location no_interference w0 paths0 = (Inr df, w3)"
    using pass_failure_propagates [where us = "\<lambda>m. None" and env = no_interference
        and cat = two_categories and w = ?q and items = "[''Clean Prefetch'']"
        and item = "''Clean Windows Temp''" and rest = "[]" and d = 4 and f = 85 and w' = ?w4,
        THEN conjunct2, THEN conjunct2, THEN conjunct2, THEN conjunct2, THEN conjunct2,
        THEN conjunct2, THEN conjunct2, THEN conjunct2] d
    by blast
  have c0: "\<exists>results. scan_all_locations None ?q two_categories = Inr results \<and>
      results ''Clean Prefetch'' \<noteq> None \<and> results ''Clean Windows Temp'' \<noteq> None"
    using r c1 by blast
  show ?thesis
    using c0 c2 c3 c4 c5 c6 c7 c8 c9 c10 c11 by (intro conjI)
qed

end
